theory Spec2Isabelle
  imports Main "HOL-Library.Word"
begin

unbundle bit_operations_syntax

section \<open>Data model of hypervisor/control.c\<close>

type_synonym u32 = "32 word"
type_synonym u64 = "64 word"

text \<open>A \<open>struct cell *\<close>. The statically allocated root cell lives at a fixed address.\<close>

type_synonym cell_ptr = nat

definition root_cell :: cell_ptr where
  "root_cell = 0"

datatype msg_type = MSG_REQUEST | MSG_INFORMATION

datatype failure_mode = ABORT_ON_ERROR | WARN_ON_ERROR

datatype management_task = CELL_START | CELL_SET_LOADABLE | CELL_DESTROY

text \<open>
  The negative return codes. A function of the source that returns \<open>int\<close> returns
  \<open>Inl e\<close> for \<open>-e\<close> and \<open>Inr v\<close> for a non-negative result; a status that is only
  tested with \<open>if (err)\<close> is an \<open>errno option\<close>, \<open>None\<close> for 0.
\<close>

datatype errno = EPERM | ENOENT | EINVAL | ENOMEM | EEXIST | EBUSY | E2BIG | ENOSYS | EOTHER int

record jailhouse_memory =
  phys_start :: u64
  virt_start :: u64
  size_mem :: u64
  flags :: u64

text \<open>
  \<open>struct jailhouse_cell_desc\<close>. The CPU bitmap and the array of memory regions follow the
  header in memory and are reached through \<open>jailhouse_cell_cpu_set\<close> and
  \<open>jailhouse_cell_mem_regions\<close>; the array has \<open>num_memory_regions\<close> entries. A bitmap
  is the set of the numbers of its set bits.
\<close>

record jailhouse_cell_desc =
  name :: string
  flags_desc :: u32
  cpu_set_size :: u32
  jailhouse_cell_cpu_set :: "nat set"
  jailhouse_cell_mem_regions :: "jailhouse_memory list"

definition num_memory_regions :: "jailhouse_cell_desc \<Rightarrow> nat" where
  "num_memory_regions cfg = length (jailhouse_cell_mem_regions cfg)"

record cpu_set =
  max_cpu_id :: nat
  bitmap :: "nat set"

record jailhouse_comm_region =
  msg_to_cell :: u32
  reply_from_cell :: u32
  cell_state :: u32

text \<open>
  \<open>struct cell\<close>. The \<open>next\<close> link is kept in the list \<open>cell_list\<close> of the state;
  \<open>cpu_set_page\<close> is the page that holds the CPU set when it does not fit into
  \<open>small_cpu_set\<close>.
\<close>

record cell =
  cell_id :: u32
  config :: jailhouse_cell_desc
  cpu_set :: cpu_set
  cpu_set_page :: "nat option"
  comm_region :: jailhouse_comm_region
  loadable :: bool
  data_pages :: u32

record per_cpu_data =
  cpu_cell :: cell_ptr
  failed :: bool
  stats :: "nat \<Rightarrow> u32"

text \<open>
  Constants, masks and sizes that control.c takes from headers outside the sources. They
  are parameters of the model: every function that uses one takes the record.
\<close>

record header_consts =
  PAGE_SIZE :: u64
  PAGE_MASK :: u64
  PAGE_ALIGN :: "u64 \<Rightarrow> u64"
  NUM_TEMPORARY_PAGES :: u32
  sizeof_jailhouse_cell_desc :: u64
  sizeof_cell :: u64
  sizeof_small_cpu_set_bitmap :: u64
  jailhouse_cell_config_size :: "jailhouse_cell_desc \<Rightarrow> u64"
  JAILHOUSE_CELL_PASSIVE_COMMREG :: u32
  JAILHOUSE_MEM_COMM_REGION :: u64
  JAILHOUSE_MEM_LOADABLE :: u64
  JAILHOUSE_MEM_VALID_FLAGS :: u64
  JAILHOUSE_MSG_NONE :: u32
  JAILHOUSE_MSG_SHUTDOWN_REQUEST :: u32
  JAILHOUSE_MSG_RECONFIG_COMPLETED :: u32
  JAILHOUSE_MSG_REQUEST_APPROVED :: u32
  JAILHOUSE_MSG_RECEIVED :: u32
  JAILHOUSE_CELL_RUNNING :: u32
  JAILHOUSE_CELL_RUNNING_LOCKED :: u32
  JAILHOUSE_CELL_SHUT_DOWN :: u32
  JAILHOUSE_CELL_FAILED :: u32
  JAILHOUSE_CPU_INFO_STATE :: u64
  JAILHOUSE_CPU_INFO_STAT_BASE :: u64
  JAILHOUSE_NUM_CPU_STATS :: u64
  JAILHOUSE_CPU_RUNNING :: "32 word"
  JAILHOUSE_CPU_FAILED :: "32 word"

subsection \<open>Calls that leave control.c\<close>

datatype printk_msg =
    Fatal_invalid_memory_bar jailhouse_memory
  | Warning_failed_to_reassign
  | Created_cell string
  | Started_cell string
  | Cell_can_be_loaded string
  | Closing_cell string

datatype page_map_stats = After_cell_creation | After_cell_destruction

text \<open>
  Every call of an architecture, paging or logging primitive is recorded, in order, in the
  trace of the state.
\<close>

datatype event =
    Arch_suspend_cpu nat
  | Arch_resume_cpu nat
  | Arch_park_cpu nat
  | Arch_reset_cpu nat
  | Arch_map_memory_region cell_ptr jailhouse_memory
  | Arch_unmap_memory_region cell_ptr jailhouse_memory
  | Arch_cell_create cell_ptr
  | Arch_cell_destroy cell_ptr
  | Arch_config_commit "cell_ptr option"
  | Page_map_get_guest_pages u64 u32
  | Page_alloc u32
  | Page_free nat u32
  | Page_map_dump_stats page_map_stats
  | Printk printk_msg

text \<open>
  The global state: the memory that holds the \<open>struct cell\<close> objects, the chain of
  \<open>next\<close> links that starts at \<open>root_cell.next\<close>, the per-CPU records, \<open>num_cells\<close>,
  the root cell's descriptor in \<open>system_config\<close>, and the trace.
\<close>

record hv_state =
  cells :: "cell_ptr \<Rightarrow> cell"
  cell_list :: "cell_ptr list"
  per_cpu :: "nat \<Rightarrow> per_cpu_data"
  num_cells :: u32
  system_config :: jailhouse_cell_desc
  trace :: "event list"

text \<open>
  What control.c cannot decide: the values of \<open>reply_from_cell\<close> and \<open>cell_state\<close>
  that the successive volatile reads of a cell's communication page return while a message
  is pending, the status of the architecture calls that return one, the descriptor that
  a mapping of guest pages shows (\<open>None\<close> for a failed mapping) and the pages that
  \<open>page_alloc\<close> hands out (\<open>None\<close> for \<open>NULL\<close>). The last three may depend on every
  call made before.
\<close>

record env =
  comm_reads :: "cell_ptr \<Rightarrow> (u32 \<times> u32) list"
  arch_result :: "event list \<Rightarrow> event \<Rightarrow> errno option"
  guest_pages :: "event list \<Rightarrow> u64 \<Rightarrow> u32 \<Rightarrow> jailhouse_cell_desc option"
  page_alloc_result :: "event list \<Rightarrow> u32 \<Rightarrow> nat option"

definition call :: "event \<Rightarrow> hv_state \<Rightarrow> hv_state" where
  "call ev s = s\<lparr>trace := trace s @ [ev]\<rparr>"

definition call_status :: "env \<Rightarrow> event \<Rightarrow> hv_state \<Rightarrow> errno option \<times> hv_state" where
  "call_status E ev s = (arch_result E (trace s) ev, call ev s)"

definition arch_suspend_cpu :: "nat \<Rightarrow> hv_state \<Rightarrow> hv_state" where
  "arch_suspend_cpu cpu = call (Arch_suspend_cpu cpu)"

definition arch_resume_cpu :: "nat \<Rightarrow> hv_state \<Rightarrow> hv_state" where
  "arch_resume_cpu cpu = call (Arch_resume_cpu cpu)"

definition arch_park_cpu :: "nat \<Rightarrow> hv_state \<Rightarrow> hv_state" where
  "arch_park_cpu cpu = call (Arch_park_cpu cpu)"

definition arch_reset_cpu :: "nat \<Rightarrow> hv_state \<Rightarrow> hv_state" where
  "arch_reset_cpu cpu = call (Arch_reset_cpu cpu)"

definition arch_map_memory_region ::
  "env \<Rightarrow> cell_ptr \<Rightarrow> jailhouse_memory \<Rightarrow> hv_state \<Rightarrow> errno option \<times> hv_state" where
  "arch_map_memory_region E c mem = call_status E (Arch_map_memory_region c mem)"

definition arch_unmap_memory_region ::
  "env \<Rightarrow> cell_ptr \<Rightarrow> jailhouse_memory \<Rightarrow> hv_state \<Rightarrow> errno option \<times> hv_state" where
  "arch_unmap_memory_region E c mem = call_status E (Arch_unmap_memory_region c mem)"

definition arch_cell_create :: "env \<Rightarrow> cell_ptr \<Rightarrow> hv_state \<Rightarrow> errno option \<times> hv_state" where
  "arch_cell_create E c = call_status E (Arch_cell_create c)"

definition arch_cell_destroy :: "cell_ptr \<Rightarrow> hv_state \<Rightarrow> hv_state" where
  "arch_cell_destroy c = call (Arch_cell_destroy c)"

definition arch_config_commit :: "cell_ptr option \<Rightarrow> hv_state \<Rightarrow> hv_state" where
  "arch_config_commit c = call (Arch_config_commit c)"

definition printk :: "printk_msg \<Rightarrow> hv_state \<Rightarrow> hv_state" where
  "printk m = call (Printk m)"

definition page_map_dump_stats :: "page_map_stats \<Rightarrow> hv_state \<Rightarrow> hv_state" where
  "page_map_dump_stats w = call (Page_map_dump_stats w)"

definition page_free :: "nat \<Rightarrow> u32 \<Rightarrow> hv_state \<Rightarrow> hv_state" where
  "page_free p n = call (Page_free p n)"

definition page_alloc :: "env \<Rightarrow> u32 \<Rightarrow> hv_state \<Rightarrow> nat option \<times> hv_state" where
  "page_alloc E n s = (page_alloc_result E (trace s) n, call (Page_alloc n) s)"

definition page_map_get_guest_pages ::
  "env \<Rightarrow> u64 \<Rightarrow> u32 \<Rightarrow> hv_state \<Rightarrow> jailhouse_cell_desc option \<times> hv_state" where
  "page_map_get_guest_pages E addr n s =
     (guest_pages E (trace s) addr n, call (Page_map_get_guest_pages addr n) s)"

subsection \<open>Bitmaps and CPU sets\<close>

definition test_bit :: "nat \<Rightarrow> nat set \<Rightarrow> bool" where
  "test_bit nr addr = (nr \<in> addr)"

definition set_bit :: "nat \<Rightarrow> nat set \<Rightarrow> nat set" where
  "set_bit nr addr = insert nr addr"

definition clear_bit :: "nat \<Rightarrow> nat set \<Rightarrow> nat set" where
  "clear_bit nr addr = addr - {nr}"

text \<open>
  \<open>next_cpu\<close>: the parameter \<open>cpu\<close> is an \<open>unsigned int\<close>, so \<open>cpu++\<close> wraps at
  \<open>2^32\<close>; \<open>exception\<close> is an \<open>int\<close> that the comparison converts to
  \<open>unsigned int\<close>, and is passed here after that conversion (\<open>-1\<close> is \<open>0xffffffff\<close>).
  The do-while loop need not end when \<open>max_cpu_id\<close> is not below \<open>2^32 - 1\<close>; a run
  that does not end is \<open>None\<close>.
\<close>

partial_function (option) next_cpu :: "u32 \<Rightarrow> cpu_set \<Rightarrow> u32 \<Rightarrow> u32 option" where
  "next_cpu cpu cs exception =
     (let cpu' = cpu + 1 in
      if unat cpu' \<le> max_cpu_id cs \<and>
         (cpu' = exception \<or> \<not> test_bit (unat cpu') (bitmap cs))
      then next_cpu cpu' cs exception
      else Some cpu')"

text \<open>
  Modelled from the spec: the iteration macros \<open>for_each_cpu_except\<close> and
  \<open>for_each_cpu\<close> are declared in a header outside the sources. "Iteration skips zero
  bits; an except iterator additionally skips a named CPU": the body runs once for every
  set bit up to \<open>max_cpu_id\<close>, in ascending order. \<open>for_each_cpu\<close> names no CPU
  (its exception is \<open>-1\<close>).
\<close>

definition for_each_cpu_except :: "cpu_set \<Rightarrow> u32 \<Rightarrow> nat list" where
  "for_each_cpu_except cs exception =
     filter (\<lambda>cpu. cpu \<noteq> unat exception \<and> test_bit cpu (bitmap cs)) [0 ..< Suc (max_cpu_id cs)]"

definition for_each_cpu :: "cpu_set \<Rightarrow> nat list" where
  "for_each_cpu cs = for_each_cpu_except cs (- 1)"

text \<open>Modelled from the spec: \<open>cell_owns_cpu\<close> is declared in a header outside the
  sources; "owns(cell, cpu_id): bit test".\<close>

definition cell_owns_cpu :: "cell \<Rightarrow> nat \<Rightarrow> bool" where
  "cell_owns_cpu c cpu_id = test_bit cpu_id (bitmap (cpu_set c))"

definition for_each_cell :: "hv_state \<Rightarrow> cell_ptr list" where
  "for_each_cell s = root_cell # cell_list s"

definition for_each_non_root_cell :: "hv_state \<Rightarrow> cell_ptr list" where
  "for_each_non_root_cell s = cell_list s"

definition cpu_id_valid :: "hv_state \<Rightarrow> u64 \<Rightarrow> bool" where
  "cpu_id_valid s cpu_id =
     (cpu_id < ucast (cpu_set_size (system_config s) * 8) \<and>
      test_bit (unat cpu_id) (jailhouse_cell_cpu_set (system_config s)))"

text \<open>
  \<open>cpu_data\<close>, the per-CPU record of the calling CPU, is passed as that CPU's number,
  which is its \<open>cpu_id\<close> field.
\<close>

definition cell_suspend :: "cell_ptr \<Rightarrow> nat \<Rightarrow> hv_state \<Rightarrow> hv_state" where
  "cell_suspend c cpu_data s =
     fold arch_suspend_cpu (for_each_cpu_except (cpu_set (cells s c)) (of_nat cpu_data)) s"

definition cell_resume :: "nat \<Rightarrow> hv_state \<Rightarrow> hv_state" where
  "cell_resume cpu_data s =
     fold arch_resume_cpu
       (for_each_cpu_except (cpu_set (cells s (cpu_cell (per_cpu s cpu_data)))) (of_nat cpu_data)) s"

subsection \<open>Messages to a cell\<close>

text \<open>
  Modelled from the spec: \<open>jailhouse_send_msg_to_cell\<close> is declared in a header outside
  the sources. "The hypervisor writes a 32-bit msg_to_cell in the shared communication
  page".
\<close>

definition jailhouse_send_msg_to_cell :: "cell_ptr \<Rightarrow> u32 \<Rightarrow> hv_state \<Rightarrow> hv_state" where
  "jailhouse_send_msg_to_cell c message s =
     s\<lparr>cells := (cells s)(c := (cells s c)\<lparr>comm_region :=
          (comm_region (cells s c))\<lparr>msg_to_cell := message\<rparr>\<rparr>)\<rparr>"

text \<open>
  The \<open>while (1)\<close> loop of \<open>cell_send_message\<close>. Each iteration reads
  \<open>reply_from_cell\<close> and \<open>cell_state\<close> once; the list holds what the successive
  iterations read. The loop is still polling when the list ends without a decision:
  \<open>None\<close>.
\<close>

fun cell_send_message_poll :: "header_consts \<Rightarrow> msg_type \<Rightarrow> (u32 \<times> u32) list \<Rightarrow> bool option" where
  "cell_send_message_poll K type [] = None"
| "cell_send_message_poll K type ((reply, state) # later) =
     (if state = JAILHOUSE_CELL_SHUT_DOWN K \<or> state = JAILHOUSE_CELL_FAILED K then Some True
      else if (type = MSG_REQUEST \<and> reply = JAILHOUSE_MSG_REQUEST_APPROVED K) \<or>
              (type = MSG_INFORMATION \<and> reply = JAILHOUSE_MSG_RECEIVED K) then Some True
      else if reply \<noteq> JAILHOUSE_MSG_NONE K then Some False
      else cell_send_message_poll K type later)"

definition cell_send_message ::
  "header_consts \<Rightarrow> env \<Rightarrow> cell_ptr \<Rightarrow> u32 \<Rightarrow> msg_type \<Rightarrow> hv_state \<Rightarrow> (bool \<times> hv_state) option" where
  "cell_send_message K E c message type s =
     (if flags_desc (config (cells s c)) AND JAILHOUSE_CELL_PASSIVE_COMMREG K \<noteq> 0
      then Some (True, s)
      else
        let s1 = jailhouse_send_msg_to_cell c message s in
        case cell_send_message_poll K type (comm_reads E c) of
          None \<Rightarrow> None
        | Some b \<Rightarrow> Some (b, s1))"

text \<open>\<open>excluded_cell\<close> is \<open>None\<close> for \<open>NULL\<close>.\<close>

fun cell_reconfig_ok_scan :: "header_consts \<Rightarrow> hv_state \<Rightarrow> cell_ptr option \<Rightarrow> cell_ptr list \<Rightarrow> bool" where
  "cell_reconfig_ok_scan K s excluded_cell [] = True"
| "cell_reconfig_ok_scan K s excluded_cell (c # rest) =
     (if Some c \<noteq> excluded_cell \<and>
         cell_state (comm_region (cells s c)) = JAILHOUSE_CELL_RUNNING_LOCKED K
      then False
      else cell_reconfig_ok_scan K s excluded_cell rest)"

definition cell_reconfig_ok :: "header_consts \<Rightarrow> cell_ptr option \<Rightarrow> hv_state \<Rightarrow> bool" where
  "cell_reconfig_ok K excluded_cell s =
     cell_reconfig_ok_scan K s excluded_cell (for_each_non_root_cell s)"

fun cell_reconfig_completed_loop ::
  "header_consts \<Rightarrow> env \<Rightarrow> cell_ptr list \<Rightarrow> hv_state \<Rightarrow> hv_state option" where
  "cell_reconfig_completed_loop K E [] s = Some s"
| "cell_reconfig_completed_loop K E (c # rest) s =
     (case cell_send_message K E c (JAILHOUSE_MSG_RECONFIG_COMPLETED K) MSG_INFORMATION s of
        None \<Rightarrow> None
      | Some (b, s1) \<Rightarrow> cell_reconfig_completed_loop K E rest s1)"

definition cell_reconfig_completed :: "header_consts \<Rightarrow> env \<Rightarrow> hv_state \<Rightarrow> hv_state option" where
  "cell_reconfig_completed K E s =
     cell_reconfig_completed_loop K E (for_each_non_root_cell s) s"

definition cell_shutdown_ok ::
  "header_consts \<Rightarrow> env \<Rightarrow> cell_ptr \<Rightarrow> hv_state \<Rightarrow> (bool \<times> hv_state) option" where
  "cell_shutdown_ok K E c s =
     cell_send_message K E c (JAILHOUSE_MSG_SHUTDOWN_REQUEST K) MSG_REQUEST s"

subsection \<open>Cell registry\<close>

text \<open>
  \<open>get_free_cell_id\<close>: \<open>id\<close> is an \<open>unsigned int\<close>. Every collision found by the scan
  of the list increments \<open>id\<close> and restarts the scan. The retry loop does not end when
  every 32-bit value is in use: \<open>None\<close>.
\<close>

partial_function (option) get_free_cell_id_retry :: "hv_state \<Rightarrow> u32 \<Rightarrow> u32 option" where
  "get_free_cell_id_retry s i =
     (if \<exists>c \<in> set (for_each_cell s). cell_id (cells s c) = i
      then get_free_cell_id_retry s (i + 1)
      else Some i)"

definition get_free_cell_id :: "hv_state \<Rightarrow> u32 option" where
  "get_free_cell_id s = get_free_cell_id_retry s 0"

text \<open>
  \<open>cell_init\<close>. \<open>memcpy\<close> copies \<open>cpu_set_size\<close> bytes of the configured bitmap, that
  is its bits below \<open>cpu_set_size * 8\<close>.
\<close>

definition cell_init ::
  "header_consts \<Rightarrow> env \<Rightarrow> cell_ptr \<Rightarrow> hv_state \<Rightarrow> (errno option \<times> hv_state) option" where
  "cell_init K E c s =
     (case get_free_cell_id s of
        None \<Rightarrow> None
      | Some i \<Rightarrow>
          let config_cpu_set = jailhouse_cell_cpu_set (config (cells s c));
              cpu_set_size = (ucast (cpu_set_size (config (cells s c))) :: u64);
              s1 = s\<lparr>cells := (cells s)(c := (cells s c)\<lparr>cell_id := i\<rparr>)\<rparr>;
              new_set = \<lparr>max_cpu_id = unat (cpu_set_size * 8 - 1),
                         bitmap = {b \<in> config_cpu_set. b < unat cpu_set_size * 8}\<rparr>
          in
          if cpu_set_size > PAGE_SIZE K then Some (Some EINVAL, s1)
          else if cpu_set_size > sizeof_small_cpu_set_bitmap K then
            (case page_alloc E 1 s1 of
               (None, s2) \<Rightarrow> Some (Some ENOMEM, s2)
             | (Some pg, s2) \<Rightarrow>
                 Some (None, s2\<lparr>cells := (cells s2)(c := (cells s2 c)
                         \<lparr>cpu_set := new_set, cpu_set_page := Some pg\<rparr>)\<rparr>))
          else
            Some (None, s1\<lparr>cells := (cells s1)(c := (cells s1 c)
                    \<lparr>cpu_set := new_set, cpu_set_page := None\<rparr>)\<rparr>))"

definition destroy_cpu_set :: "cell_ptr \<Rightarrow> hv_state \<Rightarrow> hv_state" where
  "destroy_cpu_set c s =
     (case cpu_set_page (cells s c) of
        Some pg \<Rightarrow> page_free pg 1 s
      | None \<Rightarrow> s)"

subsection \<open>Memory regions\<close>

fun check_mem_regions_loop ::
  "header_consts \<Rightarrow> jailhouse_memory list \<Rightarrow> hv_state \<Rightarrow> errno option \<times> hv_state" where
  "check_mem_regions_loop K [] s = (None, s)"
| "check_mem_regions_loop K (mem # rest) s =
     (if phys_start mem AND NOT (PAGE_MASK K) \<noteq> 0 \<or>
         virt_start mem AND NOT (PAGE_MASK K) \<noteq> 0 \<or>
         size_mem mem AND NOT (PAGE_MASK K) \<noteq> 0 \<or>
         flags mem AND NOT (JAILHOUSE_MEM_VALID_FLAGS K) \<noteq> 0
      then (Some EINVAL, printk (Fatal_invalid_memory_bar mem) s)
      else check_mem_regions_loop K rest s)"

definition check_mem_regions ::
  "header_consts \<Rightarrow> jailhouse_cell_desc \<Rightarrow> hv_state \<Rightarrow> errno option \<times> hv_state" where
  "check_mem_regions K cfg s = check_mem_regions_loop K (jailhouse_cell_mem_regions cfg) s"

text \<open>All address arithmetic is on \<open>unsigned long\<close> and wraps at \<open>2^64\<close>.\<close>

definition address_in_region :: "u64 \<Rightarrow> jailhouse_memory \<Rightarrow> bool" where
  "address_in_region addr region =
     (addr \<ge> phys_start region \<and> addr < phys_start region + size_mem region)"

definition unmap_from_root_cell ::
  "env \<Rightarrow> jailhouse_memory \<Rightarrow> hv_state \<Rightarrow> errno option \<times> hv_state" where
  "unmap_from_root_cell E mem s =
     (let tmp = mem\<lparr>virt_start := phys_start mem\<rparr>
      in arch_unmap_memory_region E root_cell tmp s)"

text \<open>
  The part of the loop body of \<open>remap_to_root_cell\<close> that builds \<open>overlap\<close> for one
  root region; \<open>None\<close> is the \<open>continue\<close>.
\<close>

definition remap_overlap :: "jailhouse_memory \<Rightarrow> jailhouse_memory \<Rightarrow> jailhouse_memory option" where
  "remap_overlap mem root_mem =
     (if address_in_region (phys_start mem) root_mem then
        let overlap_phys_start = phys_start mem;
            overlap_size = size_mem root_mem - (overlap_phys_start - phys_start root_mem);
            overlap_size = (if overlap_size > size_mem mem then size_mem mem else overlap_size)
        in Some \<lparr>phys_start = overlap_phys_start,
                 virt_start = virt_start root_mem + overlap_phys_start - phys_start root_mem,
                 size_mem = overlap_size,
                 flags = flags root_mem\<rparr>
      else if address_in_region (phys_start root_mem) mem then
        let overlap_phys_start = phys_start root_mem;
            overlap_size = size_mem mem - (overlap_phys_start - phys_start mem);
            overlap_size = (if overlap_size > size_mem root_mem then size_mem root_mem
                            else overlap_size)
        in Some \<lparr>phys_start = overlap_phys_start,
                 virt_start = virt_start root_mem + overlap_phys_start - phys_start root_mem,
                 size_mem = overlap_size,
                 flags = flags root_mem\<rparr>
      else None)"

text \<open>The loop over the root cell's regions; \<open>err\<close> is the status of the latest mapping.\<close>

fun remap_to_root_cell_loop ::
  "env \<Rightarrow> jailhouse_memory \<Rightarrow> failure_mode \<Rightarrow> jailhouse_memory list \<Rightarrow> errno option \<Rightarrow>
   hv_state \<Rightarrow> errno option \<times> hv_state" where
  "remap_to_root_cell_loop E mem mode [] err s = (err, s)"
| "remap_to_root_cell_loop E mem mode (root_mem # rest) err s =
     (case remap_overlap mem root_mem of
        None \<Rightarrow> remap_to_root_cell_loop E mem mode rest err s
      | Some overlap \<Rightarrow>
          (case arch_map_memory_region E root_cell overlap s of
             (None, s1) \<Rightarrow> remap_to_root_cell_loop E mem mode rest None s1
           | (Some e, s1) \<Rightarrow>
               if mode = ABORT_ON_ERROR then (Some e, s1)
               else remap_to_root_cell_loop E mem mode rest (Some e)
                      (printk Warning_failed_to_reassign s1)))"

definition remap_to_root_cell ::
  "env \<Rightarrow> jailhouse_memory \<Rightarrow> failure_mode \<Rightarrow> hv_state \<Rightarrow> errno option \<times> hv_state" where
  "remap_to_root_cell E mem mode s =
     remap_to_root_cell_loop E mem mode
       (jailhouse_cell_mem_regions (config (cells s root_cell))) None s"

subsection \<open>Tearing a cell down\<close>

text \<open>The body of the CPU loop of \<open>cell_destroy_internal\<close>.\<close>

definition cell_destroy_internal_cpu :: "nat \<Rightarrow> hv_state \<Rightarrow> hv_state" where
  "cell_destroy_internal_cpu cpu s =
     (let s1 = arch_park_cpu cpu s;
          root = cells s1 root_cell;
          s2 = s1\<lparr>cells := (cells s1)(root_cell :=
                 root\<lparr>cpu_set := (cpu_set root)\<lparr>bitmap := set_bit cpu (bitmap (cpu_set root))\<rparr>\<rparr>)\<rparr>
      in s2\<lparr>per_cpu := (per_cpu s2)(cpu :=
              (per_cpu s2 cpu)\<lparr>cpu_cell := root_cell, failed := False, stats := (\<lambda>n. 0)\<rparr>)\<rparr>)"

text \<open>The body of its loop over the memory regions; both statuses are dropped.\<close>

definition cell_destroy_internal_mem ::
  "header_consts \<Rightarrow> env \<Rightarrow> cell_ptr \<Rightarrow> jailhouse_memory \<Rightarrow> hv_state \<Rightarrow> hv_state" where
  "cell_destroy_internal_mem K E c mem s =
     (let s1 = snd (arch_unmap_memory_region E c mem s)
      in if flags mem AND JAILHOUSE_MEM_COMM_REGION K = 0
         then snd (remap_to_root_cell E mem WARN_ON_ERROR s1)
         else s1)"

definition cell_destroy_internal ::
  "header_consts \<Rightarrow> env \<Rightarrow> nat \<Rightarrow> cell_ptr \<Rightarrow> hv_state \<Rightarrow> hv_state" where
  "cell_destroy_internal K E cpu_data c s =
     (let s1 = fold cell_destroy_internal_cpu (for_each_cpu (cpu_set (cells s c))) s;
          s2 = fold (cell_destroy_internal_mem K E c)
                 (jailhouse_cell_mem_regions (config (cells s1 c))) s1;
          s3 = arch_cell_destroy c s2
      in arch_config_commit (Some c) s3)"

subsection \<open>cell_create\<close>

text \<open>The rollback ladder: each label runs its own step and falls through to the next.\<close>

definition cell_create_err_resume :: "nat \<Rightarrow> errno \<Rightarrow> hv_state \<Rightarrow> (errno + u32) \<times> hv_state" where
  "cell_create_err_resume cpu_data err s = (Inl err, cell_resume cpu_data s)"

definition cell_create_err_free_cell ::
  "nat \<Rightarrow> cell_ptr \<Rightarrow> u32 \<Rightarrow> errno \<Rightarrow> hv_state \<Rightarrow> (errno + u32) \<times> hv_state" where
  "cell_create_err_free_cell cpu_data c cell_pages err s =
     cell_create_err_resume cpu_data err (page_free c cell_pages s)"

definition cell_create_err_free_cpu_set ::
  "nat \<Rightarrow> cell_ptr \<Rightarrow> u32 \<Rightarrow> errno \<Rightarrow> hv_state \<Rightarrow> (errno + u32) \<times> hv_state" where
  "cell_create_err_free_cpu_set cpu_data c cell_pages err s =
     cell_create_err_free_cell cpu_data c cell_pages err (destroy_cpu_set c s)"

definition cell_create_err_destroy_cell ::
  "header_consts \<Rightarrow> env \<Rightarrow> nat \<Rightarrow> cell_ptr \<Rightarrow> u32 \<Rightarrow> errno \<Rightarrow> hv_state \<Rightarrow>
   (errno + u32) \<times> hv_state" where
  "cell_create_err_destroy_cell K E cpu_data c cell_pages err s =
     cell_create_err_free_cpu_set cpu_data c cell_pages err (cell_destroy_internal K E cpu_data c s)"

text \<open>The body of the loop that hands the CPUs over to the new cell.\<close>

definition cell_create_cpu :: "cell_ptr \<Rightarrow> nat \<Rightarrow> hv_state \<Rightarrow> hv_state" where
  "cell_create_cpu c cpu s =
     (let s1 = arch_park_cpu cpu s;
          root = cells s1 root_cell;
          s2 = s1\<lparr>cells := (cells s1)(root_cell :=
                 root\<lparr>cpu_set := (cpu_set root)\<lparr>bitmap := clear_bit cpu (bitmap (cpu_set root))\<rparr>\<rparr>)\<rparr>
      in s2\<lparr>per_cpu := (per_cpu s2)(cpu :=
              (per_cpu s2 cpu)\<lparr>cpu_cell := c, stats := (\<lambda>n. 0)\<rparr>)\<rparr>)"

text \<open>The loop that moves the memory regions; it stops at the first error.\<close>

fun cell_create_mem_loop ::
  "header_consts \<Rightarrow> env \<Rightarrow> cell_ptr \<Rightarrow> jailhouse_memory list \<Rightarrow> hv_state \<Rightarrow>
   errno option \<times> hv_state" where
  "cell_create_mem_loop K E c [] s = (None, s)"
| "cell_create_mem_loop K E c (mem # rest) s =
     (case (if flags mem AND JAILHOUSE_MEM_COMM_REGION K = 0
            then unmap_from_root_cell E mem s else (None, s)) of
        (Some e, s1) \<Rightarrow> (Some e, s1)
      | (None, s1) \<Rightarrow>
          (case arch_map_memory_region E c mem s1 of
             (Some e, s2) \<Rightarrow> (Some e, s2)
           | (None, s2) \<Rightarrow> cell_create_mem_loop K E c rest s2))"

text \<open>
  The end of \<open>cell_create\<close>, from \<open>arch_config_commit\<close> on: the cell enters the
  list behind its last element and the call returns the cell's id.
\<close>

definition cell_create_commit ::
  "header_consts \<Rightarrow> env \<Rightarrow> nat \<Rightarrow> cell_ptr \<Rightarrow> hv_state \<Rightarrow> ((errno + u32) \<times> hv_state) option" where
  "cell_create_commit K E cpu_data c s10 =
     (let s11 = arch_config_commit (Some c) s10;
          s12 = s11\<lparr>cells := (cells s11)(c := (cells s11 c)\<lparr>comm_region :=
                  (comm_region (cells s11 c))\<lparr>cell_state := JAILHOUSE_CELL_SHUT_DOWN K\<rparr>\<rparr>)\<rparr>;
          s13 = s12\<lparr>cell_list := cell_list s12 @ [c], num_cells := num_cells s12 + 1\<rparr>
      in
      case cell_reconfig_completed K E s13 of
        None \<Rightarrow> None
      | Some s14 \<Rightarrow>
          let s15 = printk (Created_cell (name (config (cells s14 c)))) s14;
              s16 = page_map_dump_stats After_cell_creation s15;
              s17 = cell_resume cpu_data s16
          in Some (Inr (cell_id (cells s17 c)), s17))"

text \<open>
  The middle of \<open>cell_create\<close>, after \<open>arch_cell_create\<close> has succeeded: the CPUs
  and the memory regions move to the new cell; an error goes to \<open>err_destroy_cell\<close>.
\<close>

definition cell_create_assign ::
  "header_consts \<Rightarrow> env \<Rightarrow> nat \<Rightarrow> cell_ptr \<Rightarrow> u32 \<Rightarrow> hv_state \<Rightarrow>
   ((errno + u32) \<times> hv_state) option" where
  "cell_create_assign K E cpu_data c cell_pages s8 =
     (let s9 = fold (cell_create_cpu c) (for_each_cpu (cpu_set (cells s8 c))) s8 in
      case cell_create_mem_loop K E c (jailhouse_cell_mem_regions (config (cells s9 c))) s9 of
        (Some e, s10) \<Rightarrow> Some (cell_create_err_destroy_cell K E cpu_data c cell_pages e s10)
      | (None, s10) \<Rightarrow> cell_create_commit K E cpu_data c s10)"

text \<open>\<open>cell_create\<close> from the allocation of the cell on; \<open>c\<close> is the allocated cell.\<close>

definition cell_create_allocated ::
  "header_consts \<Rightarrow> env \<Rightarrow> nat \<Rightarrow> cell_ptr \<Rightarrow> u32 \<Rightarrow> jailhouse_cell_desc \<Rightarrow> hv_state \<Rightarrow>
   ((errno + u32) \<times> hv_state) option" where
  "cell_create_allocated K E cpu_data c cell_pages cfg s5 =
     (let s6 = s5\<lparr>cells := (cells s5)(c := (cells s5 c)\<lparr>data_pages := cell_pages, config := cfg\<rparr>)\<rparr>
      in
      case cell_init K E c s6 of
        None \<Rightarrow> None
      | Some (Some e, s7) \<Rightarrow> Some (cell_create_err_free_cell cpu_data c cell_pages e s7)
      | Some (None, s7) \<Rightarrow>
          if cell_owns_cpu (cells s7 c) cpu_data
          then Some (cell_create_err_free_cpu_set cpu_data c cell_pages EBUSY s7)
          else if \<exists>cpu \<in> set (for_each_cpu (cpu_set (cells s7 c))).
                    \<not> cell_owns_cpu (cells s7 root_cell) cpu
          then Some (cell_create_err_free_cpu_set cpu_data c cell_pages EBUSY s7)
          else
            (case arch_cell_create E c s7 of
               (Some e, s8) \<Rightarrow> Some (cell_create_err_free_cpu_set cpu_data c cell_pages e s8)
             | (None, s8) \<Rightarrow> cell_create_assign K E cpu_data c cell_pages s8))"

definition cell_create ::
  "header_consts \<Rightarrow> env \<Rightarrow> nat \<Rightarrow> u64 \<Rightarrow> hv_state \<Rightarrow> ((errno + u32) \<times> hv_state) option" where
  "cell_create K E cpu_data config_address s0 =
     (let cfg_page_offs = config_address AND NOT (PAGE_MASK K) in
      if cpu_cell (per_cpu s0 cpu_data) \<noteq> root_cell then Some (Inl EPERM, s0)
      else
        let s1 = cell_suspend root_cell cpu_data s0 in
        if \<not> cell_reconfig_ok K None s1 then Some (cell_create_err_resume cpu_data EPERM s1)
        else
          let cfg_pages = ucast (PAGE_ALIGN K (sizeof_jailhouse_cell_desc K + cfg_page_offs)
                                   div PAGE_SIZE K)
          in
          (case page_map_get_guest_pages E config_address cfg_pages s1 of
             (None, s2) \<Rightarrow> Some (cell_create_err_resume cpu_data ENOMEM s2)
           | (Some cfg, s2) \<Rightarrow>
               if \<exists>c \<in> set (for_each_cell s2). name (config (cells s2 c)) = name cfg
               then Some (cell_create_err_resume cpu_data EEXIST s2)
               else
                 let cfg_total_size = jailhouse_cell_config_size K cfg;
                     cfg_pages = ucast (PAGE_ALIGN K (cfg_total_size + cfg_page_offs)
                                          div PAGE_SIZE K)
                 in
                 if cfg_pages > NUM_TEMPORARY_PAGES K
                 then Some (cell_create_err_resume cpu_data E2BIG s2)
                 else
                   (case page_map_get_guest_pages E config_address cfg_pages s2 of
                      (None, s3) \<Rightarrow> Some (cell_create_err_resume cpu_data ENOMEM s3)
                    | (Some mapped, s3) \<Rightarrow>
                        (case check_mem_regions K cfg s3 of
                           (Some e, s4) \<Rightarrow> Some (cell_create_err_resume cpu_data e s4)
                         | (None, s4) \<Rightarrow>
                             let cell_pages = ucast (PAGE_ALIGN K (sizeof_cell K + cfg_total_size)
                                                       div PAGE_SIZE K)
                             in
                             (case page_alloc E cell_pages s4 of
                                (None, s5) \<Rightarrow> Some (cell_create_err_resume cpu_data ENOMEM s5)
                              | (Some c, s5) \<Rightarrow>
                                  cell_create_allocated K E cpu_data c cell_pages cfg s5)))))"

subsection \<open>Management of an existing cell\<close>

text \<open>
  \<open>cell_management_prologue\<close>: the result is the error, or 0 together with the cell
  stored through \<open>cell_ptr\<close>. \<open>id\<close> is an \<open>unsigned long\<close>, a cell's id an
  \<open>unsigned int\<close> that the comparison widens.
\<close>

definition cell_management_prologue ::
  "header_consts \<Rightarrow> env \<Rightarrow> management_task \<Rightarrow> nat \<Rightarrow> u64 \<Rightarrow> hv_state \<Rightarrow>
   ((errno + cell_ptr) \<times> hv_state) option" where
  "cell_management_prologue K E task cpu_data ident s =
     (if cpu_cell (per_cpu s cpu_data) \<noteq> root_cell then Some (Inl EPERM, s)
      else
        let s1 = cell_suspend root_cell cpu_data s in
        case find (\<lambda>c. ucast (cell_id (cells s1 c)) = ident) (for_each_cell s1) of
          None \<Rightarrow> Some (Inl ENOENT, cell_resume cpu_data s1)
        | Some c \<Rightarrow>
            if c = root_cell then Some (Inl EINVAL, cell_resume cpu_data s1)
            else if task = CELL_DESTROY \<and> \<not> cell_reconfig_ok K (Some c) s1
            then Some (Inl EPERM, cell_resume cpu_data s1)
            else
              (case cell_shutdown_ok K E c s1 of
                 None \<Rightarrow> None
               | Some (False, s2) \<Rightarrow> Some (Inl EPERM, cell_resume cpu_data s2)
               | Some (True, s2) \<Rightarrow> Some (Inr c, cell_suspend c cpu_data s2)))"

fun cell_start_unmap_loop ::
  "header_consts \<Rightarrow> env \<Rightarrow> jailhouse_memory list \<Rightarrow> hv_state \<Rightarrow> errno option \<times> hv_state" where
  "cell_start_unmap_loop K E [] s = (None, s)"
| "cell_start_unmap_loop K E (mem # rest) s =
     (if flags mem AND JAILHOUSE_MEM_LOADABLE K \<noteq> 0 then
        (case unmap_from_root_cell E mem s of
           (Some e, s1) \<Rightarrow> (Some e, s1)
         | (None, s1) \<Rightarrow> cell_start_unmap_loop K E rest s1)
      else cell_start_unmap_loop K E rest s)"

definition cell_start_cpu :: "nat \<Rightarrow> hv_state \<Rightarrow> hv_state" where
  "cell_start_cpu cpu s =
     arch_reset_cpu cpu (s\<lparr>per_cpu := (per_cpu s)(cpu := (per_cpu s cpu)\<lparr>failed := False\<rparr>)\<rparr>)"

definition cell_start ::
  "header_consts \<Rightarrow> env \<Rightarrow> nat \<Rightarrow> u64 \<Rightarrow> hv_state \<Rightarrow> (errno option \<times> hv_state) option" where
  "cell_start K E cpu_data ident s =
     (case cell_management_prologue K E CELL_START cpu_data ident s of
        None \<Rightarrow> None
      | Some (Inl err, s1) \<Rightarrow> Some (Some err, s1)
      | Some (Inr c, s1) \<Rightarrow>
          (case (if loadable (cells s1 c) then
                   (case cell_start_unmap_loop K E
                           (jailhouse_cell_mem_regions (config (cells s1 c))) s1 of
                      (Some e, s2) \<Rightarrow> (Some e, s2)
                    | (None, s2) \<Rightarrow>
                        let s3 = arch_config_commit None s2
                        in (None, s3\<lparr>cells := (cells s3)(c := (cells s3 c)\<lparr>loadable := False\<rparr>)\<rparr>))
                 else (None, s1)) of
             (Some e, s4) \<Rightarrow> Some (Some e, cell_resume cpu_data s4)
           | (None, s4) \<Rightarrow>
               let s5 = s4\<lparr>cells := (cells s4)(c := (cells s4 c)\<lparr>comm_region :=
                          (comm_region (cells s4 c))
                            \<lparr>cell_state := JAILHOUSE_CELL_RUNNING K,
                             msg_to_cell := JAILHOUSE_MSG_NONE K\<rparr>\<rparr>)\<rparr>;
                   s6 = fold cell_start_cpu (for_each_cpu (cpu_set (cells s5 c))) s5;
                   s7 = printk (Started_cell (name (config (cells s6 c)))) s6
               in Some (None, cell_resume cpu_data s7)))"

fun cell_set_loadable_remap_loop ::
  "header_consts \<Rightarrow> env \<Rightarrow> jailhouse_memory list \<Rightarrow> hv_state \<Rightarrow> errno option \<times> hv_state" where
  "cell_set_loadable_remap_loop K E [] s = (None, s)"
| "cell_set_loadable_remap_loop K E (mem # rest) s =
     (if flags mem AND JAILHOUSE_MEM_LOADABLE K \<noteq> 0 then
        (case remap_to_root_cell E mem ABORT_ON_ERROR s of
           (Some e, s1) \<Rightarrow> (Some e, s1)
         | (None, s1) \<Rightarrow> cell_set_loadable_remap_loop K E rest s1)
      else cell_set_loadable_remap_loop K E rest s)"

definition cell_set_loadable_cpu :: "nat \<Rightarrow> hv_state \<Rightarrow> hv_state" where
  "cell_set_loadable_cpu cpu s =
     arch_park_cpu cpu (s\<lparr>per_cpu := (per_cpu s)(cpu := (per_cpu s cpu)\<lparr>failed := False\<rparr>)\<rparr>)"

definition cell_set_loadable ::
  "header_consts \<Rightarrow> env \<Rightarrow> nat \<Rightarrow> u64 \<Rightarrow> hv_state \<Rightarrow> (errno option \<times> hv_state) option" where
  "cell_set_loadable K E cpu_data ident s =
     (case cell_management_prologue K E CELL_SET_LOADABLE cpu_data ident s of
        None \<Rightarrow> None
      | Some (Inl err, s1) \<Rightarrow> Some (Some err, s1)
      | Some (Inr c, s1) \<Rightarrow>
          let s2 = fold cell_set_loadable_cpu (for_each_cpu (cpu_set (cells s1 c))) s1 in
          if loadable (cells s2 c) then Some (None, cell_resume cpu_data s2)
          else
            let s3 = s2\<lparr>cells := (cells s2)(c := (cells s2 c)
                       \<lparr>comm_region := (comm_region (cells s2 c))
                          \<lparr>cell_state := JAILHOUSE_CELL_SHUT_DOWN K\<rparr>,
                        loadable := True\<rparr>)\<rparr>
            in
            (case cell_set_loadable_remap_loop K E
                    (jailhouse_cell_mem_regions (config (cells s3 c))) s3 of
               (Some e, s4) \<Rightarrow> Some (Some e, cell_resume cpu_data s4)
             | (None, s4) \<Rightarrow>
                 let s5 = arch_config_commit None s4;
                     s6 = printk (Cell_can_be_loaded (name (config (cells s5 c)))) s5
                 in Some (None, cell_resume cpu_data s6)))"

text \<open>
  \<open>cell_destroy\<close>. The walk to the predecessor and the relinking take the cell out of
  the chain of \<open>next\<close> links.
\<close>

definition cell_destroy ::
  "header_consts \<Rightarrow> env \<Rightarrow> nat \<Rightarrow> u64 \<Rightarrow> hv_state \<Rightarrow> (errno option \<times> hv_state) option" where
  "cell_destroy K E cpu_data ident s =
     (case cell_management_prologue K E CELL_DESTROY cpu_data ident s of
        None \<Rightarrow> None
      | Some (Inl err, s1) \<Rightarrow> Some (Some err, s1)
      | Some (Inr c, s1) \<Rightarrow>
          let s2 = printk (Closing_cell (name (config (cells s1 c)))) s1;
              s3 = cell_destroy_internal K E cpu_data c s2;
              s4 = s3\<lparr>cell_list := remove1 c (cell_list s3), num_cells := num_cells s3 - 1\<rparr>;
              s5 = page_free c (data_pages (cells s4 c)) s4;
              s6 = page_map_dump_stats After_cell_destruction s5
          in
          (case cell_reconfig_completed K E s6 of
             None \<Rightarrow> None
           | Some s7 \<Rightarrow> Some (None, cell_resume cpu_data s7)))"

subsection \<open>cpu_get_info\<close>

text \<open>
  Modelled from the spec: the macro \<open>BIT_MASK\<close> is defined in a header outside the
  sources. \<open>BIT_MASK(30, 0)\<close> leaves a counter "masked to 31 bits (top bit reserved)":
  the bits from the first argument down to the second are set.
\<close>

definition BIT_MASK :: "nat \<Rightarrow> nat \<Rightarrow> u64" where
  "BIT_MASK hi lo = push_bit lo (mask (hi + 1 - lo))"

text \<open>
  \<open>cpu_get_info\<close> returns an \<open>int\<close>: \<open>Inr v\<close> is the 32-bit value \<open>v\<close>. A counter is
  an \<open>u32\<close>; the conjunction with the mask is computed on 64 bits and converted to
  \<open>int\<close>.
\<close>

definition cpu_get_info ::
  "header_consts \<Rightarrow> nat \<Rightarrow> u64 \<Rightarrow> u64 \<Rightarrow> hv_state \<Rightarrow> errno + 32 word" where
  "cpu_get_info K cpu_data cpu_id type s =
     (if \<not> cpu_id_valid s cpu_id then Inl EINVAL
      else if cpu_cell (per_cpu s cpu_data) \<noteq> root_cell \<and>
              \<not> cell_owns_cpu (cells s (cpu_cell (per_cpu s cpu_data))) (unat cpu_id)
      then Inl EPERM
      else if type = JAILHOUSE_CPU_INFO_STATE K then
        Inr (if failed (per_cpu s (unat cpu_id)) then JAILHOUSE_CPU_FAILED K
             else JAILHOUSE_CPU_RUNNING K)
      else if type \<ge> JAILHOUSE_CPU_INFO_STAT_BASE K \<and>
              type - JAILHOUSE_CPU_INFO_STAT_BASE K < JAILHOUSE_NUM_CPU_STATS K then
        let type = type - JAILHOUSE_CPU_INFO_STAT_BASE K
        in Inr (ucast (ucast (stats (per_cpu s (unat cpu_id)) (unat type)) AND BIT_MASK 30 0))
      else Inl EINVAL)"

section \<open>Auxiliary notions for the statements\<close>

text \<open>The suspend and resume calls of a trace, in their order.\<close>

fun is_suspend_resume :: "event \<Rightarrow> bool" where
  "is_suspend_resume (Arch_suspend_cpu cpu) = True"
| "is_suspend_resume (Arch_resume_cpu cpu) = True"
| "is_suspend_resume ev = False"

definition suspends_resumes :: "event list \<Rightarrow> event list" where
  "suspends_resumes t = filter is_suspend_resume t"

text \<open>A step that only appends calls other than suspends and resumes to the trace.\<close>

definition appends_quietly :: "hv_state \<Rightarrow> hv_state \<Rightarrow> bool" where
  "appends_quietly s s' =
     (\<exists>new. s' = s\<lparr>trace := trace s @ new\<rparr> \<and> suspends_resumes new = [])"

subsection \<open>A small configuration for the examples\<close>

text \<open>
  One choice of the header constants, a root cell that owns the CPUs 0 and 1, a second
  cell with id 1 that owns CPU 2 and one loadable region, and a guest that leaves its
  reply empty at the first read and answers \<open>3\<close> at the second.
\<close>

definition sample_consts :: header_consts where
  "sample_consts =
     \<lparr>PAGE_SIZE = 4096, PAGE_MASK = - 4096, PAGE_ALIGN = (\<lambda>x. (x + 4095) AND - 4096),
      NUM_TEMPORARY_PAGES = 16, sizeof_jailhouse_cell_desc = 48, sizeof_cell = 8192,
      sizeof_small_cpu_set_bitmap = 8,
      jailhouse_cell_config_size =
        (\<lambda>cfg. 48 + ucast (cpu_set_size cfg) + 32 * of_nat (num_memory_regions cfg)),
      JAILHOUSE_CELL_PASSIVE_COMMREG = 1,
      JAILHOUSE_MEM_COMM_REGION = 32, JAILHOUSE_MEM_LOADABLE = 64,
      JAILHOUSE_MEM_VALID_FLAGS = 127,
      JAILHOUSE_MSG_NONE = 0, JAILHOUSE_MSG_SHUTDOWN_REQUEST = 1,
      JAILHOUSE_MSG_RECONFIG_COMPLETED = 2, JAILHOUSE_MSG_REQUEST_APPROVED = 3,
      JAILHOUSE_MSG_RECEIVED = 4,
      JAILHOUSE_CELL_RUNNING = 0, JAILHOUSE_CELL_RUNNING_LOCKED = 1,
      JAILHOUSE_CELL_SHUT_DOWN = 2, JAILHOUSE_CELL_FAILED = 3,
      JAILHOUSE_CPU_INFO_STATE = 0, JAILHOUSE_CPU_INFO_STAT_BASE = 1000,
      JAILHOUSE_NUM_CPU_STATS = 4, JAILHOUSE_CPU_RUNNING = 0, JAILHOUSE_CPU_FAILED = 2\<rparr>"

definition sample_root :: cell where
  "sample_root =
     \<lparr>cell_id = 0,
      config = \<lparr>name = ''root'', flags_desc = 0, cpu_set_size = 1,
                jailhouse_cell_cpu_set = {0, 1, 2},
                jailhouse_cell_mem_regions =
                  [\<lparr>phys_start = 0, virt_start = 0, size_mem = 0x100000, flags = 7\<rparr>]\<rparr>,
      cpu_set = \<lparr>max_cpu_id = 3, bitmap = {0, 1}\<rparr>, cpu_set_page = None,
      comm_region = \<lparr>msg_to_cell = 0, reply_from_cell = 0, cell_state = 0\<rparr>,
      loadable = False, data_pages = 0\<rparr>"

definition sample_guest :: cell where
  "sample_guest =
     \<lparr>cell_id = 1,
      config = \<lparr>name = ''guest'', flags_desc = 0, cpu_set_size = 1,
                jailhouse_cell_cpu_set = {2},
                jailhouse_cell_mem_regions =
                  [\<lparr>phys_start = 0x1000, virt_start = 0, size_mem = 0x1000, flags = 71\<rparr>]\<rparr>,
      cpu_set = \<lparr>max_cpu_id = 3, bitmap = {2}\<rparr>, cpu_set_page = None,
      comm_region = \<lparr>msg_to_cell = 0, reply_from_cell = 0, cell_state = 0\<rparr>,
      loadable = False, data_pages = 3\<rparr>"

definition sample_state :: hv_state where
  "sample_state =
     \<lparr>cells = (\<lambda>p. if p = 1 then sample_guest else sample_root),
      cell_list = [1],
      per_cpu = (\<lambda>cpu. \<lparr>cpu_cell = (if cpu = 2 then 1 else 0), failed = False,
                         stats = (\<lambda>n. 0)\<rparr>),
      num_cells = 2,
      system_config = config sample_root,
      trace = []\<rparr>"

definition sample_env :: env where
  "sample_env =
     \<lparr>comm_reads = (\<lambda>c. [(0, 0), (3, 0)]),
      arch_result = (\<lambda>t ev. None),
      guest_pages = (\<lambda>t addr n. None),
      page_alloc_result = (\<lambda>t n. None)\<rparr>"

subsection \<open>The overlap of two regions, in the words of the specification\<close>

text \<open>
  The physical interval \<open>[phys_start, phys_start + size)\<close> of a region, as a set of
  addresses; two regions intersect when their intervals share an address; the descriptor
  of the intersection starts at the larger start, ends at the smaller end, keeps the
  distance between physical and virtual addresses of the root region and has its flags.
\<close>

definition region_interval :: "jailhouse_memory \<Rightarrow> nat set" where
  "region_interval m = {unat (phys_start m) ..< unat (phys_start m) + unat (size_mem m)}"

definition regions_intersect :: "jailhouse_memory \<Rightarrow> jailhouse_memory \<Rightarrow> bool" where
  "regions_intersect m r = (region_interval m \<inter> region_interval r \<noteq> {})"

definition intersection_descriptor :: "jailhouse_memory \<Rightarrow> jailhouse_memory \<Rightarrow> jailhouse_memory" where
  "intersection_descriptor m r =
     (let start = max (unat (phys_start m)) (unat (phys_start r));
          end = min (unat (phys_start m) + unat (size_mem m))
                    (unat (phys_start r) + unat (size_mem r))
      in \<lparr>phys_start = of_nat start,
          virt_start = virt_start r + (of_nat start - phys_start r),
          size_mem = of_nat (end - start),
          flags = flags r\<rparr>)"

text \<open>A region that is not empty and ends below \<open>2^64\<close>.\<close>

definition region_in_range :: "jailhouse_memory \<Rightarrow> bool" where
  "region_in_range m = (0 < size_mem m \<and> unat (phys_start m) + unat (size_mem m) < 2 ^ 64)"

text \<open>The calls of \<open>arch_map_memory_region\<close> in a trace, in their order.\<close>

fun map_calls :: "event list \<Rightarrow> (cell_ptr \<times> jailhouse_memory) list" where
  "map_calls [] = []"
| "map_calls (Arch_map_memory_region c mem # t) = (c, mem) # map_calls t"
| "map_calls (ev # t) = map_calls t"

text \<open>States that differ at most in the messages to the cells.\<close>

definition same_but_msg :: "hv_state \<Rightarrow> hv_state \<Rightarrow> bool" where
  "same_but_msg s s' =
     (trace s' = trace s \<and> cell_list s' = cell_list s \<and> per_cpu s' = per_cpu s \<and>
      num_cells s' = num_cells s \<and> system_config s' = system_config s \<and>
      (\<forall>p. cell_id (cells s' p) = cell_id (cells s p) \<and>
           config (cells s' p) = config (cells s p) \<and>
           cpu_set (cells s' p) = cpu_set (cells s p) \<and>
           cpu_set_page (cells s' p) = cpu_set_page (cells s p) \<and>
           loadable (cells s' p) = loadable (cells s p) \<and>
           data_pages (cells s' p) = data_pages (cells s p) \<and>
           reply_from_cell (comm_region (cells s' p)) = reply_from_cell (comm_region (cells s p)) \<and>
           cell_state (comm_region (cells s' p)) = cell_state (comm_region (cells s p))))"

text \<open>The same configuration with the second cell already loadable.\<close>

definition sample_loadable_state :: hv_state where
  "sample_loadable_state =
     sample_state\<lparr>cells := (cells sample_state)(1 := sample_guest\<lparr>loadable := True\<rparr>)\<rparr>"

text \<open>A cell from which a reply to an information message, or a final state, is read.\<close>

definition cell_answers :: "header_consts \<Rightarrow> env \<Rightarrow> hv_state \<Rightarrow> cell_ptr \<Rightarrow> bool" where
  "cell_answers K E s c =
     (flags_desc (config (cells s c)) AND JAILHOUSE_CELL_PASSIVE_COMMREG K \<noteq> 0 \<or>
      cell_send_message_poll K MSG_INFORMATION (comm_reads E c) \<noteq> None)"

text \<open>A configuration with a third cell, with id 2 and CPU 3, and an environment in which
  every architecture call fails.\<close>

definition sample_second_guest :: cell where
  "sample_second_guest =
     sample_guest\<lparr>cell_id := 2, cpu_set := \<lparr>max_cpu_id = 3, bitmap = {3}\<rparr>,
                   config := (config sample_guest)\<lparr>name := ''second'',
                                                    jailhouse_cell_cpu_set := {3}\<rparr>\<rparr>"

definition sample_two_cells_state :: hv_state where
  "sample_two_cells_state =
     sample_state\<lparr>cells := (cells sample_state)(2 := sample_second_guest),
                   cell_list := [1, 2],
                   per_cpu := (per_cpu sample_state)(3 :=
                                \<lparr>cpu_cell = 2, failed = False, stats = (\<lambda>n. 0)\<rparr>),
                   num_cells := 3\<rparr>"

definition sample_failing_env :: env where
  "sample_failing_env = sample_env\<lparr>arch_result := (\<lambda>t ev. Some ENOMEM)\<rparr>"

subsection \<open>The cell ids in use\<close>

text \<open>
  The test of the loop of \<open>get_free_cell_id\<close>: some cell of the list has the id
  \<open>i\<close>; and the ids of the cells of the list, in the order of the list.
\<close>

definition id_in_use :: "hv_state \<Rightarrow> u32 \<Rightarrow> bool" where
  "id_in_use s i = (\<exists>c \<in> set (for_each_cell s). cell_id (cells s c) = i)"

definition cell_ids :: "hv_state \<Rightarrow> u32 list" where
  "cell_ids s = map (\<lambda>c. cell_id (cells s c)) (for_each_cell s)"

subsection \<open>The course of \<open>cell_create\<close>\<close>

text \<open>
  The state \<open>sx\<close> inside \<open>cell_create\<close>, with \<open>c\<close> the page of the new cell: since
  \<open>s\<close> no CPU has been suspended or resumed, the caller's CPU is in the root cell and
  the ids of the other cells are unchanged. \<open>create_done\<close> is the same at the return,
  after the resumes of the CPUs that the root cell owns then.
\<close>

definition create_progress :: "nat \<Rightarrow> cell_ptr \<Rightarrow> hv_state \<Rightarrow> hv_state \<Rightarrow> bool" where
  "create_progress cpu_data c s sx =
     ((\<exists>new. trace sx = trace s @ new \<and> suspends_resumes new = []) \<and>
      cpu_cell (per_cpu sx cpu_data) = root_cell \<and>
      (\<forall>p. p \<noteq> c \<longrightarrow> cell_id (cells sx p) = cell_id (cells s p)))"

definition create_done :: "nat \<Rightarrow> cell_ptr \<Rightarrow> hv_state \<Rightarrow> hv_state \<Rightarrow> bool" where
  "create_done cpu_data c s s' =
     ((\<exists>new. trace s' = trace s @ new @
              map Arch_resume_cpu
                (for_each_cpu_except (cpu_set (cells s' root_cell)) (of_nat cpu_data)) \<and>
            suspends_resumes new = []) \<and>
      (\<forall>p. p \<noteq> c \<longrightarrow> cell_id (cells s' p) = cell_id (cells s p)))"

subsection \<open>The suspends and resumes of a lifecycle operation\<close>

text \<open>
  The CPUs of a cell other than the caller's, in ascending order, as \<open>cell_suspend\<close>
  and \<open>cell_resume\<close> visit them; the cell that the prologue found, if it succeeded; and
  the CPUs of that cell.
\<close>

definition other_cpus :: "hv_state \<Rightarrow> cell_ptr \<Rightarrow> nat \<Rightarrow> nat list" where
  "other_cpus s c cpu_data = for_each_cpu_except (cpu_set (cells s c)) (of_nat cpu_data)"

definition target_cell ::
  "header_consts \<Rightarrow> env \<Rightarrow> management_task \<Rightarrow> nat \<Rightarrow> u64 \<Rightarrow> hv_state \<Rightarrow> cell_ptr option" where
  "target_cell K E task cpu_data ident s =
     (case cell_management_prologue K E task cpu_data ident s of
        Some (Inr c, s1) \<Rightarrow> Some c
      | _ \<Rightarrow> None)"

definition target_cpus ::
  "header_consts \<Rightarrow> env \<Rightarrow> management_task \<Rightarrow> nat \<Rightarrow> u64 \<Rightarrow> hv_state \<Rightarrow> nat list" where
  "target_cpus K E task cpu_data ident s =
     (case target_cell K E task cpu_data ident s of
        Some c \<Rightarrow> other_cpus s c cpu_data
      | None \<Rightarrow> [])"

text \<open>
  The calls made between two states, and the shape of the suspends and resumes among
  them: the root cell's CPUs are suspended, then the CPUs \<open>target\<close>, and the last
  calls resume the CPUs that the root cell owns at the return.
\<close>

definition new_calls :: "hv_state \<Rightarrow> hv_state \<Rightarrow> event list" where
  "new_calls s s' = drop (length (trace s)) (trace s')"

definition suspended_then_resumed :: "hv_state \<Rightarrow> hv_state \<Rightarrow> nat \<Rightarrow> nat list \<Rightarrow> bool" where
  "suspended_then_resumed s s' cpu_data target =
     (take (length (trace s)) (trace s') = trace s \<and>
      suspends_resumes (new_calls s s') =
        map Arch_suspend_cpu (other_cpus s root_cell cpu_data) @
        map Arch_suspend_cpu target @
        map Arch_resume_cpu (other_cpus s' root_cell cpu_data))"

text \<open>
  The configuration of a further cell, with CPU 1 and no memory region, and an environment
  in which the guest pages hold this configuration and \<open>page_alloc\<close> returns the
  page 2.
\<close>

definition sample_new_config :: jailhouse_cell_desc where
  "sample_new_config =
     \<lparr>name = ''new'', flags_desc = 0, cpu_set_size = 1, jailhouse_cell_cpu_set = {1},
      jailhouse_cell_mem_regions = []\<rparr>"

definition sample_create_env :: env where
  "sample_create_env =
     sample_env\<lparr>guest_pages := (\<lambda>t addr n. Some sample_new_config),
                page_alloc_result := (\<lambda>t n. Some 2)\<rparr>"

subsection \<open>Walking a CPU set with \<open>next_cpu\<close>\<close>

text \<open>
  A loop that walks a CPU set with \<open>next_cpu\<close>: it starts from \<open>cpu\<close> (an
  iteration starts from \<open>-1\<close>), takes the CPU that \<open>next_cpu\<close> returns and ends at
  the first result above \<open>max_cpu_id\<close>. It is compared below with the list that
  \<open>for_each_cpu_except\<close> stands for.
\<close>

partial_function (option) for_each_cpu_except_loop :: "u32 \<Rightarrow> cpu_set \<Rightarrow> u32 \<Rightarrow> nat list option" where
  "for_each_cpu_except_loop cpu cs exception =
     (case next_cpu cpu cs exception of
        None \<Rightarrow> None
      | Some cpu' \<Rightarrow>
          if unat cpu' \<le> max_cpu_id cs
          then Option.bind (for_each_cpu_except_loop cpu' cs exception)
                 (\<lambda>later. Some (unat cpu' # later))
          else Some [])"

subsection \<open>The calls of a failing remap and of a teardown, in the words of the specification\<close>

text \<open>The mapping of the intersection of \<open>mem\<close> and the root region \<open>r\<close> into the root cell.\<close>

definition overlap_call :: "jailhouse_memory \<Rightarrow> jailhouse_memory \<Rightarrow> event" where
  "overlap_call mem r = Arch_map_memory_region root_cell (intersection_descriptor mem r)"

text \<open>
  "\<open>WARN_ON_ERROR\<close> (log and continue)": the calls of a remap of \<open>mem\<close> in this mode,
  after the trace \<open>t\<close>. Every overlap with a root region is mapped into the root cell,
  in the order of the root regions; a mapping that fails is followed by the warning, and
  the remap goes on with the next root region.
\<close>

fun remap_warn_calls ::
  "env \<Rightarrow> event list \<Rightarrow> jailhouse_memory \<Rightarrow> jailhouse_memory list \<Rightarrow> event list" where
  "remap_warn_calls E t mem [] = []"
| "remap_warn_calls E t mem (r # rs) =
     (case remap_overlap mem r of
        None \<Rightarrow> remap_warn_calls E t mem rs
      | Some overlap \<Rightarrow>
          let now = Arch_map_memory_region root_cell overlap #
                    (if arch_result E t (Arch_map_memory_region root_cell overlap) = None then []
                     else [Printk Warning_failed_to_reassign])
          in now @ remap_warn_calls E (t @ now) mem rs)"

text \<open>
  "For every memory region, unmap from the cell, and unless it is a \<open>COMM_REGION\<close>,
  remap into root with \<open>WARN_ON_ERROR\<close>": the calls of the loop over the regions of the
  cell \<open>c\<close>, after the trace \<open>t\<close>, for the regions \<open>roots\<close> of the root cell.
\<close>

fun teardown_calls ::
  "header_consts \<Rightarrow> env \<Rightarrow> event list \<Rightarrow> cell_ptr \<Rightarrow> jailhouse_memory list \<Rightarrow>
   jailhouse_memory list \<Rightarrow> event list" where
  "teardown_calls K E t c roots [] = []"
| "teardown_calls K E t c roots (mem # ms) =
     (let now = Arch_unmap_memory_region c mem #
                (if flags mem AND JAILHOUSE_MEM_COMM_REGION K = 0
                 then remap_warn_calls E (t @ [Arch_unmap_memory_region c mem]) mem roots
                 else [])
      in now @ teardown_calls K E (t @ now) c roots ms)"

text \<open>
  The calls of \<open>cell_destroy\<close> between its prologue and the final resume: the message
  of the log, the parking of the cell's CPUs, the loop over its regions, the destruction
  and the commit of the architecture, the release of the cell's pages and the statistics.
\<close>

definition destroy_calls ::
  "header_consts \<Rightarrow> env \<Rightarrow> event list \<Rightarrow> cell_ptr \<Rightarrow> hv_state \<Rightarrow> event list" where
  "destroy_calls K E t c s =
     (let start = Printk (Closing_cell (name (config (cells s c)))) #
                  map Arch_park_cpu (for_each_cpu (cpu_set (cells s c)))
      in start @
         teardown_calls K E (t @ start) c
           (jailhouse_cell_mem_regions (config (cells s root_cell)))
           (jailhouse_cell_mem_regions (config (cells s c))) @
         [Arch_cell_destroy c, Arch_config_commit (Some c),
          Page_free c (data_pages (cells s c)),
          Page_map_dump_stats After_cell_destruction])"

text \<open>
  A root cell with two adjacent regions, and an environment in which the third cell has
  left its reply empty at each of its first \<open>n\<close> reads.
\<close>

definition sample_split_root_state :: hv_state where
  "sample_split_root_state =
     sample_state\<lparr>cells := (cells sample_state)(0 := sample_root\<lparr>config :=
       (config sample_root)\<lparr>jailhouse_cell_mem_regions :=
         [\<lparr>phys_start = 0, virt_start = 0, size_mem = 0x2000, flags = 7\<rparr>,
          \<lparr>phys_start = 0x2000, virt_start = 0x2000, size_mem = 0x2000, flags = 7\<rparr>]\<rparr>\<rparr>)\<rparr>"

definition sample_silent_env :: "nat \<Rightarrow> env" where
  "sample_silent_env n =
     sample_env\<lparr>comm_reads := (\<lambda>c. if c = 2 then replicate n (0, 0) else [(0, 0), (3, 0)])\<rparr>"

section \<open>Basic facts about the recorded calls\<close>

lemma call_simps [simp]:
  "trace (call ev s) = trace s @ [ev]"
  "cells (call ev s) = cells s"
  "cell_list (call ev s) = cell_list s"
  "per_cpu (call ev s) = per_cpu s"
  "num_cells (call ev s) = num_cells s"
  "system_config (call ev s) = system_config s"
  by (simp_all add: call_def)

lemma call_status_simps [simp]:
  "fst (call_status E ev s) = arch_result E (trace s) ev"
  "snd (call_status E ev s) = call ev s"
  by (simp_all add: call_status_def)

lemma fold_call: "fold (\<lambda>x. call (f x)) xs s = s\<lparr>trace := trace s @ map f xs\<rparr>"
  by (induction xs arbitrary: s) (simp_all add: call_def)

lemma cell_suspend_eq:
  "cell_suspend c cpu_data s =
     s\<lparr>trace := trace s @
          map Arch_suspend_cpu (for_each_cpu_except (cpu_set (cells s c)) (of_nat cpu_data))\<rparr>"
proof -
  have h: "arch_suspend_cpu = (\<lambda>x. call (Arch_suspend_cpu x))"
    by (rule ext) (simp add: arch_suspend_cpu_def)
  show ?thesis
    unfolding cell_suspend_def h by (rule fold_call)
qed

lemma cell_resume_eq:
  "cell_resume cpu_data s =
     s\<lparr>trace := trace s @
          map Arch_resume_cpu
            (for_each_cpu_except (cpu_set (cells s (cpu_cell (per_cpu s cpu_data))))
               (of_nat cpu_data))\<rparr>"
proof -
  have h: "arch_resume_cpu = (\<lambda>x. call (Arch_resume_cpu x))"
    by (rule ext) (simp add: arch_resume_cpu_def)
  show ?thesis
    unfolding cell_resume_def h by (rule fold_call)
qed

lemma appends_quietly_refl [simp]: "appends_quietly s s"
  by (auto simp: appends_quietly_def suspends_resumes_def intro: exI[of _ "[]"])

lemma appends_quietly_trans:
  "appends_quietly s s1 \<Longrightarrow> appends_quietly s1 s2 \<Longrightarrow> appends_quietly s s2"
  unfolding appends_quietly_def suspends_resumes_def
  by (elim exE conjE, rule_tac x="new @ newa" in exI) simp

lemma appends_quietly_call:
  "\<not> is_suspend_resume ev \<Longrightarrow> appends_quietly s (call ev s)"
  unfolding appends_quietly_def suspends_resumes_def
  by (rule exI[of _ "[ev]"]) (simp add: call_def)

lemma remap_loop_quiet:
  "appends_quietly s (snd (remap_to_root_cell_loop E mem mode rs err s))"
proof (induction rs arbitrary: err s)
  case Nil
  then show ?case by simp
next
  case (Cons r rs)
  show ?case
  proof (cases "remap_overlap mem r")
    case None
    then show ?thesis using Cons by simp
  next
    case (Some ov)
    have q1: "appends_quietly s (call (Arch_map_memory_region root_cell ov) s)"
      by (rule appends_quietly_call) simp
    have q2: "appends_quietly (call (Arch_map_memory_region root_cell ov) s)
                (printk Warning_failed_to_reassign (call (Arch_map_memory_region root_cell ov) s))"
      unfolding printk_def by (rule appends_quietly_call) simp
    show ?thesis
      using Some q1 appends_quietly_trans[OF q1 Cons] appends_quietly_trans[OF appends_quietly_trans[OF q1 q2] Cons]
      by (auto simp: arch_map_memory_region_def call_status_def split: option.splits)
  qed
qed


lemma cell_reconfig_ok_scan_iff:
  "cell_reconfig_ok_scan K s excluded cs \<longleftrightarrow>
     \<not> (\<exists>c \<in> set cs. Some c \<noteq> excluded \<and>
            cell_state (comm_region (cells s c)) = JAILHOUSE_CELL_RUNNING_LOCKED K)"
  by (induction cs) auto

lemma cell_reconfig_ok_iff:
  "cell_reconfig_ok K excluded s \<longleftrightarrow>
     \<not> (\<exists>c \<in> set (cell_list s). Some c \<noteq> excluded \<and>
            cell_state (comm_region (cells s c)) = JAILHOUSE_CELL_RUNNING_LOCKED K)"
  by (simp add: cell_reconfig_ok_def for_each_non_root_cell_def cell_reconfig_ok_scan_iff)

lemma cell_suspend_frame [simp]:
  "cells (cell_suspend c cpu_data s) = cells s"
  "cell_list (cell_suspend c cpu_data s) = cell_list s"
  "per_cpu (cell_suspend c cpu_data s) = per_cpu s"
  "num_cells (cell_suspend c cpu_data s) = num_cells s"
  by (simp_all add: cell_suspend_eq)

lemma cell_resume_frame [simp]:
  "cells (cell_resume cpu_data s) = cells s"
  "cell_list (cell_resume cpu_data s) = cell_list s"
  "per_cpu (cell_resume cpu_data s) = per_cpu s"
  "num_cells (cell_resume cpu_data s) = num_cells s"
  by (simp_all add: cell_resume_eq)

section \<open>The shared prologue of the management operations\<close>



lemmas sample_defs =
  sample_consts_def sample_root_def sample_guest_def sample_state_def sample_env_def

lemma sample_shutdown_ok:
  "cell_shutdown_ok sample_consts sample_env 1 (cell_suspend root_cell 0 sample_state) =
     Some (True, jailhouse_send_msg_to_cell 1 1 (cell_suspend root_cell 0 sample_state))"
  by (simp add: cell_shutdown_ok_def cell_send_message_def sample_defs)


section \<open>The message handshake\<close>

lemma cell_send_message_poll_skip:
  "\<forall>(r, st) \<in> set pre. st \<noteq> JAILHOUSE_CELL_SHUT_DOWN K \<and> st \<noteq> JAILHOUSE_CELL_FAILED K \<and>
       r = JAILHOUSE_MSG_NONE K \<and>
       \<not> (type = MSG_REQUEST \<and> r = JAILHOUSE_MSG_REQUEST_APPROVED K) \<and>
       \<not> (type = MSG_INFORMATION \<and> r = JAILHOUSE_MSG_RECEIVED K) \<Longrightarrow>
   cell_send_message_poll K type (pre @ rest) = cell_send_message_poll K type rest"
  by (induction pre) auto

text \<open>
  C5. A cell whose configuration has \<open>PASSIVE_COMMREG\<close> accepts every message and its
  communication page is not written. Otherwise the message is written and, after reads
  that showed an empty reply and a state other than \<open>SHUT_DOWN\<close> and \<open>FAILED\<close>, the
  next read decides: the state \<open>SHUT_DOWN\<close> or \<open>FAILED\<close> accepts; the reply
  \<open>REQUEST_APPROVED\<close> to a request or \<open>MSG_RECEIVED\<close> to an information accepts; any
  other reply that is not \<open>NONE\<close> rejects; the reply \<open>NONE\<close> polls on. While no read
  decides, the function has not returned. The header gives \<open>NONE\<close> a value of its own.
\<close>

theorem cell_send_message_decision:
  assumes none: "JAILHOUSE_MSG_NONE K \<noteq> JAILHOUSE_MSG_REQUEST_APPROVED K"
                "JAILHOUSE_MSG_NONE K \<noteq> JAILHOUSE_MSG_RECEIVED K"
  shows "(flags_desc (config (cells s c)) AND JAILHOUSE_CELL_PASSIVE_COMMREG K \<noteq> 0 \<longrightarrow>
           cell_send_message K E c message type s = Some (True, s)) \<and>
         (flags_desc (config (cells s c)) AND JAILHOUSE_CELL_PASSIVE_COMMREG K = 0 \<and>
          (\<forall>(r, st) \<in> set polling. r = JAILHOUSE_MSG_NONE K \<and>
               st \<noteq> JAILHOUSE_CELL_SHUT_DOWN K \<and> st \<noteq> JAILHOUSE_CELL_FAILED K) \<longrightarrow>
           (comm_reads E c = polling \<longrightarrow> cell_send_message K E c message type s = None) \<and>
           (comm_reads E c = polling @ (reply, state) # later \<longrightarrow>
              (state = JAILHOUSE_CELL_SHUT_DOWN K \<or> state = JAILHOUSE_CELL_FAILED K \<longrightarrow>
                 cell_send_message K E c message type s =
                   Some (True, jailhouse_send_msg_to_cell c message s)) \<and>
              ((type = MSG_REQUEST \<and> reply = JAILHOUSE_MSG_REQUEST_APPROVED K) \<or>
               (type = MSG_INFORMATION \<and> reply = JAILHOUSE_MSG_RECEIVED K) \<longrightarrow>
                 cell_send_message K E c message type s =
                   Some (True, jailhouse_send_msg_to_cell c message s)) \<and>
              (state \<noteq> JAILHOUSE_CELL_SHUT_DOWN K \<and> state \<noteq> JAILHOUSE_CELL_FAILED K \<and>
               reply \<noteq> JAILHOUSE_MSG_NONE K \<and>
               \<not> (type = MSG_REQUEST \<and> reply = JAILHOUSE_MSG_REQUEST_APPROVED K) \<and>
               \<not> (type = MSG_INFORMATION \<and> reply = JAILHOUSE_MSG_RECEIVED K) \<longrightarrow>
                 cell_send_message K E c message type s =
                   Some (False, jailhouse_send_msg_to_cell c message s)) \<and>
              (state \<noteq> JAILHOUSE_CELL_SHUT_DOWN K \<and> state \<noteq> JAILHOUSE_CELL_FAILED K \<and>
               reply = JAILHOUSE_MSG_NONE K \<longrightarrow>
                 cell_send_message K E c message type s =
                   (case cell_send_message_poll K type later of
                      None \<Rightarrow> None
                    | Some b \<Rightarrow> Some (b, jailhouse_send_msg_to_cell c message s)))))"
proof -
  have und: "cell_send_message_poll K type (polling @ rest) = cell_send_message_poll K type rest"
    if "\<forall>(r, st) \<in> set polling. r = JAILHOUSE_MSG_NONE K \<and>
               st \<noteq> JAILHOUSE_CELL_SHUT_DOWN K \<and> st \<noteq> JAILHOUSE_CELL_FAILED K" for rest
    using that none by (intro cell_send_message_poll_skip) auto
  show ?thesis
    using und[of "[]"] und[of "(reply, state) # later"] none
    by (auto simp: cell_send_message_def Let_def)
qed

theorem cell_send_message_decision_witness:
  "JAILHOUSE_MSG_NONE sample_consts \<noteq> JAILHOUSE_MSG_REQUEST_APPROVED sample_consts \<and>
   JAILHOUSE_MSG_NONE sample_consts \<noteq> JAILHOUSE_MSG_RECEIVED sample_consts \<and>
   flags_desc (config (cells sample_state 1)) AND JAILHOUSE_CELL_PASSIVE_COMMREG sample_consts = 0 \<and>
   comm_reads sample_env 1 = [(0, 0)] @ (3, 0) # [] \<and>
   cell_send_message sample_consts sample_env 1 1 MSG_REQUEST sample_state =
     Some (True, jailhouse_send_msg_to_cell 1 1 sample_state) \<and>
   cell_send_message sample_consts sample_env 1 2 MSG_INFORMATION sample_state =
     Some (False, jailhouse_send_msg_to_cell 1 2 sample_state)"
  using cell_send_message_decision [where K = sample_consts and E = sample_env and c = 1 and
      s = sample_state and polling = "[(0, 0)]" and reply = 3 and state = 0 and later = "[]" and
      message = 1 and type = MSG_REQUEST]
    cell_send_message_decision [where K = sample_consts and E = sample_env and c = 1 and
      s = sample_state and polling = "[(0, 0)]" and reply = 3 and state = 0 and later = "[]" and
      message = 2 and type = MSG_INFORMATION]
  by (simp add: sample_defs)

section \<open>CPU statistics\<close>

lemma masked_counter:
  "(ucast ((ucast (x :: u32) :: u64) AND BIT_MASK 30 0) :: 32 word) = x AND mask 31"
  by (rule bit_word_eqI) (auto simp: BIT_MASK_def bit_simps)

lemma masked_counter_top: "\<not> bit ((x :: 32 word) AND mask 31) 31"
  by (simp add: bit_simps)

lemma masked_counter_sint: "0 \<le> sint ((x :: 32 word) AND mask 31)"
proof -
  have "\<not> sint (x AND mask 31) < 0"
    using masked_counter_top[of x] bit_last_iff[of "x AND mask 31"] by simp
  then show ?thesis by simp
qed

text \<open>
  C8. For a valid \<open>cpu_id\<close>, a caller that is in the root cell or whose cell owns the
  CPU, and a type other than the state query: when \<open>type\<close> is at least \<open>STAT_BASE\<close>
  and \<open>type - STAT_BASE\<close> is below \<open>NUM_CPU_STATS\<close>, \<open>cpu_get_info\<close> returns the
  counter at index \<open>type - STAT_BASE\<close> with only its low 31 bits, a value whose bit 31
  is clear and that is not negative as an \<open>int\<close>; when \<open>type - STAT_BASE\<close> (on
  \<open>unsigned long\<close>) is not below \<open>NUM_CPU_STATS\<close>, and also when \<open>type\<close> is below
  \<open>STAT_BASE\<close>, it returns \<open>-EINVAL\<close>.
\<close>

theorem cpu_get_info_statistics:
  assumes "cpu_id_valid s cpu_id"
    and "cpu_cell (per_cpu s cpu_data) = root_cell \<or>
         cell_owns_cpu (cells s (cpu_cell (per_cpu s cpu_data))) (unat cpu_id)"
    and "type \<noteq> JAILHOUSE_CPU_INFO_STATE K"
  shows "(JAILHOUSE_CPU_INFO_STAT_BASE K \<le> type \<and>
          type - JAILHOUSE_CPU_INFO_STAT_BASE K < JAILHOUSE_NUM_CPU_STATS K \<longrightarrow>
            cpu_get_info K cpu_data cpu_id type s =
              Inr (stats (per_cpu s (unat cpu_id)) (unat (type - JAILHOUSE_CPU_INFO_STAT_BASE K))
                   AND mask 31) \<and>
            \<not> bit (stats (per_cpu s (unat cpu_id)) (unat (type - JAILHOUSE_CPU_INFO_STAT_BASE K))
                   AND mask 31 :: 32 word) 31 \<and>
            0 \<le> sint (stats (per_cpu s (unat cpu_id)) (unat (type - JAILHOUSE_CPU_INFO_STAT_BASE K))
                   AND mask 31 :: 32 word)) \<and>
         (\<not> type - JAILHOUSE_CPU_INFO_STAT_BASE K < JAILHOUSE_NUM_CPU_STATS K \<longrightarrow>
            cpu_get_info K cpu_data cpu_id type s = Inl EINVAL) \<and>
         (type < JAILHOUSE_CPU_INFO_STAT_BASE K \<longrightarrow>
            cpu_get_info K cpu_data cpu_id type s = Inl EINVAL)"
  using assms masked_counter_top masked_counter_sint
  by (auto simp: cpu_get_info_def Let_def masked_counter)

theorem cpu_get_info_statistics_witness:
  "cpu_id_valid sample_state 1 \<and>
   cpu_cell (per_cpu sample_state 0) = root_cell \<and>
   (1001 :: u64) \<noteq> JAILHOUSE_CPU_INFO_STATE sample_consts \<and>
   JAILHOUSE_CPU_INFO_STAT_BASE sample_consts \<le> 1001 \<and>
   (1001 :: u64) - JAILHOUSE_CPU_INFO_STAT_BASE sample_consts <
     JAILHOUSE_NUM_CPU_STATS sample_consts \<and>
   cpu_get_info sample_consts 0 1 1001 sample_state = Inr 0 \<and>
   \<not> (1004 :: u64) - JAILHOUSE_CPU_INFO_STAT_BASE sample_consts <
       JAILHOUSE_NUM_CPU_STATS sample_consts \<and>
   cpu_get_info sample_consts 0 1 1004 sample_state = Inl EINVAL \<and>
   (7 :: u64) < JAILHOUSE_CPU_INFO_STAT_BASE sample_consts \<and>
   cpu_get_info sample_consts 0 1 7 sample_state = Inl EINVAL"
  using cpu_get_info_statistics [where s = sample_state and cpu_id = 1 and cpu_data = 0 and
      K = sample_consts and type = 1001]
    cpu_get_info_statistics [where s = sample_state and cpu_id = 1 and cpu_data = 0 and
      K = sample_consts and type = 1004]
    cpu_get_info_statistics [where s = sample_state and cpu_id = 1 and cpu_data = 0 and
      K = sample_consts and type = 7]
  by (simp add: sample_state_def sample_root_def sample_consts_def cpu_id_valid_def test_bit_def
        root_cell_def)

section \<open>Iteration over a CPU set\<close>

lemma unat_succ_u32: "unat (c :: u32) < 2 ^ 32 - 1 \<Longrightarrow> unat (c + 1) = Suc (unat c)"
  by (simp add: unat_word_ariths)

lemma next_cpu_run:
  assumes "max_cpu_id cs < 2 ^ 32 - 1"
  shows "\<exists>r. next_cpu cpu cs exc = Some r \<and> unat (cpu + 1) \<le> unat r \<and>
           (unat r \<le> max_cpu_id cs \<longrightarrow> r \<noteq> exc \<and> test_bit (unat r) (bitmap cs)) \<and>
           (\<forall>i. unat (cpu + 1) \<le> i \<and> i < unat r \<longrightarrow>
                i \<le> max_cpu_id cs \<and> (i = unat exc \<or> \<not> test_bit i (bitmap cs)))"
proof (induction "Suc (max_cpu_id cs) - unat (cpu + 1)" arbitrary: cpu rule: less_induct)
  case less
  define c where "c = cpu + 1"
  have unfold: "next_cpu cpu cs exc =
      (if unat c \<le> max_cpu_id cs \<and> (c = exc \<or> \<not> test_bit (unat c) (bitmap cs))
       then next_cpu c cs exc else Some c)"
    unfolding c_def by (subst next_cpu.simps) (simp add: Let_def)
  show ?case
  proof (cases "unat c \<le> max_cpu_id cs \<and> (c = exc \<or> \<not> test_bit (unat c) (bitmap cs))")
    case False
    then have "next_cpu cpu cs exc = Some c"
      by (simp only: unfold if_not_P if_False)
    with False show ?thesis unfolding c_def by auto
  next
    case True
    then have le: "unat c \<le> max_cpu_id cs" by simp
    with assms have lt: "unat c < 2 ^ 32 - 1" by simp
    have step: "unat (c + 1) = Suc (unat c)"
      using lt by (rule unat_succ_u32)
    have "Suc (max_cpu_id cs) - unat (c + 1) < Suc (max_cpu_id cs) - unat (cpu + 1)"
      using le step unfolding c_def by simp
    from less[OF this] obtain r where r:
      "next_cpu c cs exc = Some r" "unat (c + 1) \<le> unat r"
      "unat r \<le> max_cpu_id cs \<longrightarrow> r \<noteq> exc \<and> test_bit (unat r) (bitmap cs)"
      "\<forall>i. unat (c + 1) \<le> i \<and> i < unat r \<longrightarrow>
           i \<le> max_cpu_id cs \<and> (i = unat exc \<or> \<not> test_bit i (bitmap cs))"
      by blast
    have eq: "next_cpu cpu cs exc = Some r"
      using r(1) by (simp only: unfold if_P[OF True])
    have skipped: "i \<le> max_cpu_id cs \<and> (i = unat exc \<or> \<not> test_bit i (bitmap cs))"
      if "unat c \<le> i" "i < unat r" for i
    proof (cases "i = unat c")
      case True
      with \<open>unat c \<le> max_cpu_id cs \<and> (c = exc \<or> \<not> test_bit (unat c) (bitmap cs))\<close>
      show ?thesis by auto
    next
      case False
      with that step have "unat (c + 1) \<le> i" by simp
      with r(4) that show ?thesis by blast
    qed
    have "unat c \<le> unat r" using r(2) step by simp
    with eq r(3) skipped show ?thesis
      unfolding c_def by (intro exI[of _ r]) blast
  qed
qed

text \<open>
  C7, as amended. For a CPU set whose \<open>max_cpu_id\<close> is below \<open>2^32 - 1\<close>,
  \<open>next_cpu\<close> returns. The scan starts at \<open>(cpu + 1) mod 2^32\<close>, which is
  \<open>cpu + 1\<close> unless \<open>cpu\<close> is \<open>0xffffffff\<close> (the \<open>-1\<close> at which an iteration
  starts), where it is 0. The result is the smallest id from there on that is at most
  \<open>max_cpu_id\<close>, set in the bitmap and different from the exception; when there is
  none, the result is greater than \<open>max_cpu_id\<close>.
\<close>

theorem next_cpu_least:
  assumes "max_cpu_id cs < 2 ^ 32 - 1"
  shows "\<exists>r. next_cpu cpu cs exc = Some r \<and>
           ((\<exists>i. (unat cpu + 1) mod 2 ^ 32 \<le> i \<and> i \<le> max_cpu_id cs \<and>
                 test_bit i (bitmap cs) \<and> i \<noteq> unat exc) \<longrightarrow>
              unat r = (LEAST i. (unat cpu + 1) mod 2 ^ 32 \<le> i \<and> i \<le> max_cpu_id cs \<and>
                           test_bit i (bitmap cs) \<and> i \<noteq> unat exc)) \<and>
           (\<not> (\<exists>i. (unat cpu + 1) mod 2 ^ 32 \<le> i \<and> i \<le> max_cpu_id cs \<and>
                 test_bit i (bitmap cs) \<and> i \<noteq> unat exc) \<longrightarrow>
              max_cpu_id cs < unat r) \<and>
           (cpu \<noteq> - 1 \<longrightarrow> (unat cpu + 1) mod 2 ^ 32 = unat cpu + 1) \<and>
           (cpu = - 1 \<longrightarrow> (unat cpu + 1) mod 2 ^ 32 = 0)"
proof -
  have start: "unat (cpu + 1) = (unat cpu + 1) mod 2 ^ 32"
    by (simp add: unat_word_ariths)
  from next_cpu_run[OF assms, of cpu exc] obtain r where r:
    "next_cpu cpu cs exc = Some r" "unat (cpu + 1) \<le> unat r"
    "unat r \<le> max_cpu_id cs \<longrightarrow> r \<noteq> exc \<and> test_bit (unat r) (bitmap cs)"
    "\<forall>i. unat (cpu + 1) \<le> i \<and> i < unat r \<longrightarrow>
         i \<le> max_cpu_id cs \<and> (i = unat exc \<or> \<not> test_bit i (bitmap cs))"
    by blast
  let ?P = "\<lambda>i. (unat cpu + 1) mod 2 ^ 32 \<le> i \<and> i \<le> max_cpu_id cs \<and>
                 test_bit i (bitmap cs) \<and> i \<noteq> unat exc"
  have none: "max_cpu_id cs < unat r" if "\<not> (\<exists>i. ?P i)"
  proof (rule ccontr)
    assume "\<not> max_cpu_id cs < unat r"
    then have "unat r \<le> max_cpu_id cs" by simp
    with r(2,3) start have "?P (unat r)" by (auto simp: word_unat_eq_iff)
    with that show False by blast
  qed
  have some: "unat r = (LEAST i. ?P i)" if "\<exists>i. ?P i"
  proof -
    from that obtain i where i: "?P i" by blast
    have "unat r \<le> max_cpu_id cs"
    proof (rule ccontr)
      assume "\<not> unat r \<le> max_cpu_id cs"
      with i have "i < unat r" by simp
      with r(4) i start show False by auto
    qed
    with r(2,3) start have Pr: "?P (unat r)" by (auto simp: word_unat_eq_iff)
    have "unat r \<le> j" if "?P j" for j
    proof (rule ccontr)
      assume "\<not> unat r \<le> j"
      then have "j < unat r" by simp
      with r(4) that start show False by auto
    qed
    with Pr show ?thesis by (intro Least_equality[symmetric]) auto
  qed
  have w1: "(unat cpu + 1) mod 2 ^ 32 = unat cpu + 1" if "cpu \<noteq> - 1"
  proof -
    have "unat (- 1 :: u32) = 2 ^ 32 - 1"
      by (simp add: unsigned_minus_1_eq_mask mask_eq_exp_minus_1)
    with that have "unat cpu \<noteq> 2 ^ 32 - 1"
      by (metis word_unat_eq_iff)
    moreover have "unat cpu < 2 ^ 32" using unsigned_less[of cpu] by simp
    ultimately show ?thesis by simp
  qed
  have w2: "(unat cpu + 1) mod 2 ^ 32 = 0" if "cpu = - 1"
    using that by (simp add: unsigned_minus_1_eq_mask mask_eq_exp_minus_1)
  show ?thesis
    using r(1) none some w1 w2 by (intro exI[of _ r]) blast
qed



theorem next_cpu_least_witness:
  "max_cpu_id \<lparr>max_cpu_id = 3, bitmap = {0, 2}\<rparr> < 2 ^ 32 - 1 \<and>
   (\<exists>r. next_cpu 0 \<lparr>max_cpu_id = 3, bitmap = {0, 2}\<rparr> (- 1) = Some r \<and> unat r = 2) \<and>
   (\<exists>r. next_cpu 2 \<lparr>max_cpu_id = 3, bitmap = {0, 2}\<rparr> (- 1) = Some r \<and> unat r = 4)"
  using next_cpu_least [where cs = "\<lparr>max_cpu_id = 3, bitmap = {0, 2}\<rparr>" and cpu = 0 and exc = "- 1"]
  by (simp add: next_cpu.simps test_bit_def)

text \<open>
  C7 as stated fails at the start value of an iteration: for \<open>cpu = 0xffffffff\<close> no id
  is greater than \<open>cpu\<close>, yet the result is CPU 0, which is not greater than
  \<open>max_cpu_id\<close> either.
\<close>

theorem next_cpu_wraps_counterexample:
  "next_cpu (- 1) \<lparr>max_cpu_id = 3, bitmap = {0, 1}\<rparr> (- 1) = Some 0 \<and>
   \<not> unat (- 1 :: u32) < unat (0 :: u32) \<and>
   \<not> max_cpu_id \<lparr>max_cpu_id = 3, bitmap = {0, 1}\<rparr> < unat (0 :: u32)"
  by (simp add: next_cpu.simps test_bit_def)

text \<open>
  The walk with \<open>next_cpu\<close> visits the CPUs of the list \<open>for_each_cpu_except\<close>, in
  the order of the list.
\<close>

lemma for_each_cpu_except_loop_from:
  assumes "max_cpu_id cs < 2 ^ 32 - 1"
  shows "for_each_cpu_except_loop cpu cs exc =
           Some (filter (\<lambda>i. i \<noteq> unat exc \<and> test_bit i (bitmap cs))
                   [unat (cpu + 1) ..< Suc (max_cpu_id cs)])"
proof (induction "Suc (max_cpu_id cs) - unat (cpu + 1)" arbitrary: cpu rule: less_induct)
  case less
  let ?P = "\<lambda>i. i \<noteq> unat exc \<and> test_bit i (bitmap cs)"
  from next_cpu_run[OF assms, of cpu exc] obtain r where
    r: "next_cpu cpu cs exc = Some r" and le: "unat (cpu + 1) \<le> unat r"
    and hit: "unat r \<le> max_cpu_id cs \<longrightarrow> r \<noteq> exc \<and> test_bit (unat r) (bitmap cs)"
    and skipped: "\<forall>i. unat (cpu + 1) \<le> i \<and> i < unat r \<longrightarrow>
                i \<le> max_cpu_id cs \<and> (i = unat exc \<or> \<not> test_bit i (bitmap cs))"
    by blast
  show ?case
  proof (cases "unat r \<le> max_cpu_id cs")
    case False
    have "filter ?P [unat (cpu + 1) ..< Suc (max_cpu_id cs)] = []"
      using skipped False by (auto simp: filter_empty_conv simp del: upt_Suc)
    moreover have "for_each_cpu_except_loop cpu cs exc = Some []"
      using r False by (subst for_each_cpu_except_loop.simps) simp
    ultimately show ?thesis by (simp del: upt_Suc)
  next
    case True
    with assms have "unat r < 2 ^ 32 - 1" by simp
    then have step: "unat (r + 1) = Suc (unat r)" by (rule unat_succ_u32)
    have "Suc (max_cpu_id cs) - unat (r + 1) < Suc (max_cpu_id cs) - unat (cpu + 1)"
      using le True step by simp
    from less[OF this] have later: "for_each_cpu_except_loop r cs exc =
        Some (filter ?P [Suc (unat r) ..< Suc (max_cpu_id cs)])"
      by (simp add: step del: upt_Suc)
    have split: "[unat (cpu + 1) ..< Suc (max_cpu_id cs)] =
        [unat (cpu + 1) ..< unat r] @ unat r # [Suc (unat r) ..< Suc (max_cpu_id cs)]"
    proof -
      have "[unat (cpu + 1) ..< Suc (max_cpu_id cs)] =
          [unat (cpu + 1) ..< unat r] @ [unat r ..< Suc (max_cpu_id cs)]"
        using upt_add_eq_append[OF le, of "Suc (max_cpu_id cs) - unat r"] True
        by (simp del: upt_Suc)
      also have "[unat r ..< Suc (max_cpu_id cs)] = unat r # [Suc (unat r) ..< Suc (max_cpu_id cs)]"
        using True by (simp add: upt_conv_Cons del: upt_Suc)
      finally show ?thesis .
    qed
    have none: "filter ?P [unat (cpu + 1) ..< unat r] = []"
      using skipped by (auto simp: filter_empty_conv)
    have this_one: "?P (unat r)"
      using hit True by (simp add: word_unat_eq_iff)
    have "for_each_cpu_except_loop cpu cs exc =
        Some (unat r # filter ?P [Suc (unat r) ..< Suc (max_cpu_id cs)])"
      using r True later by (subst for_each_cpu_except_loop.simps) (simp del: upt_Suc)
    then show ?thesis
      unfolding split using none this_one by (simp del: upt_Suc)
  qed
qed

lemma for_each_cpu_except_loop_eq:
  assumes "max_cpu_id cs < 2 ^ 32 - 1"
  shows "for_each_cpu_except_loop (- 1) cs exc = Some (for_each_cpu_except cs exc)"
  using for_each_cpu_except_loop_from[OF assms, of "- 1" exc]
  by (simp add: for_each_cpu_except_def del: upt_Suc)

section \<open>Remapping a region to the root cell\<close>

lemma regions_intersect_iff:
  "regions_intersect m r \<longleftrightarrow>
     max (unat (phys_start m)) (unat (phys_start r)) <
     min (unat (phys_start m) + unat (size_mem m)) (unat (phys_start r) + unat (size_mem r))"
proof -
  have "{a ..< b} \<inter> {c ..< d} \<noteq> {} \<longleftrightarrow> max a c < min b d" for a b c d :: nat
  proof
    assume "{a ..< b} \<inter> {c ..< d} \<noteq> {}"
    then obtain x where "x \<in> {a ..< b}" "x \<in> {c ..< d}" by blast
    then show "max a c < min b d" by simp
  next
    assume "max a c < min b d"
    then have "max a c \<in> {a ..< b} \<inter> {c ..< d}" by simp
    then show "{a ..< b} \<inter> {c ..< d} \<noteq> {}" by blast
  qed
  then show ?thesis
    unfolding regions_intersect_def region_interval_def .
qed

lemma address_in_region_nat:
  assumes "unat (phys_start r) + unat (size_mem r) < 2 ^ 64"
  shows "address_in_region a r \<longleftrightarrow>
           unat (phys_start r) \<le> unat a \<and> unat a < unat (phys_start r) + unat (size_mem r)"
proof -
  have "unat (phys_start r + size_mem r) = unat (phys_start r) + unat (size_mem r)"
    using assms by (simp add: unat_word_ariths)
  then show ?thesis
    by (simp add: address_in_region_def word_le_nat_alt word_less_nat_alt)
qed

lemma remap_overlap_intersection:
  assumes m: "region_in_range m" and r: "region_in_range r"
  shows "remap_overlap m r =
           (if regions_intersect m r then Some (intersection_descriptor m r) else None)"
proof -
  let ?ms = "unat (phys_start m)" and ?mz = "unat (size_mem m)"
  let ?rs = "unat (phys_start r)" and ?rz = "unat (size_mem r)"
  have mb: "?ms + ?mz < 2 ^ 64" "0 < ?mz" and rb: "?rs + ?rz < 2 ^ 64" "0 < ?rz"
    using m r by (simp_all add: region_in_range_def word_greater_zero_iff unat_gt_0)
  have inm: "address_in_region a m \<longleftrightarrow> ?ms \<le> unat a \<and> unat a < ?ms + ?mz" for a
    using mb by (intro address_in_region_nat) simp
  have inr: "address_in_region a r \<longleftrightarrow> ?rs \<le> unat a \<and> unat a < ?rs + ?rz" for a
    using rb by (intro address_in_region_nat) simp
  show ?thesis
  proof (cases "address_in_region (phys_start m) r")
    case True
    then have c: "?rs \<le> ?ms" "?ms < ?rs + ?rz" using inr by auto
    have d: "unat (phys_start m - phys_start r) = ?ms - ?rs"
      using c by (simp add: unat_sub word_le_nat_alt)
    have e: "unat (size_mem r - (phys_start m - phys_start r)) = ?rz - (?ms - ?rs)"
      using c d by (simp add: unat_sub word_le_nat_alt)
    have gt: "size_mem r - (phys_start m - phys_start r) > size_mem m \<longleftrightarrow> ?mz < ?rz - (?ms - ?rs)"
      using e by (simp add: word_less_nat_alt)
    have int: "regions_intersect m r"
      using c mb by (simp add: regions_intersect_iff)
    have mx: "max ?ms ?rs = ?ms" using c by simp
    have sz: "(if ?mz < ?rz - (?ms - ?rs) then size_mem m
               else size_mem r - (phys_start m - phys_start r)) =
              of_nat (min (?ms + ?mz) (?rs + ?rz) - ?ms)"
    proof (cases "?mz < ?rz - (?ms - ?rs)")
      case True
      then have "min (?ms + ?mz) (?rs + ?rz) - ?ms = ?mz" using c by simp
      with True show ?thesis by simp
    next
      case False
      then have "min (?ms + ?mz) (?rs + ?rz) - ?ms = ?rz - (?ms - ?rs)" using c by auto
      with False e show ?thesis by (metis of_nat_unat ucast_id)
    qed
    show ?thesis
      using True int sz gt
      by (simp add: remap_overlap_def Let_def intersection_descriptor_def mx)
  next
    case False
    note notin = this
    show ?thesis
    proof (cases "address_in_region (phys_start r) m")
      case True
      then have c: "?ms \<le> ?rs" "?rs < ?ms + ?mz" using inm by auto
      have d: "unat (phys_start r - phys_start m) = ?rs - ?ms"
        using c by (simp add: unat_sub word_le_nat_alt)
      have e: "unat (size_mem m - (phys_start r - phys_start m)) = ?mz - (?rs - ?ms)"
        using c d by (simp add: unat_sub word_le_nat_alt)
      have gt: "size_mem m - (phys_start r - phys_start m) > size_mem r \<longleftrightarrow> ?rz < ?mz - (?rs - ?ms)"
        using e by (simp add: word_less_nat_alt)
      have int: "regions_intersect m r"
        using c rb by (simp add: regions_intersect_iff)
      have mx: "max ?ms ?rs = ?rs" using c by simp
      have sz: "(if ?rz < ?mz - (?rs - ?ms) then size_mem r
                 else size_mem m - (phys_start r - phys_start m)) =
                of_nat (min (?ms + ?mz) (?rs + ?rz) - ?rs)"
      proof (cases "?rz < ?mz - (?rs - ?ms)")
        case True
        then have "min (?ms + ?mz) (?rs + ?rz) - ?rs = ?rz" using c by simp
        with True show ?thesis by simp
      next
        case False
        then have "min (?ms + ?mz) (?rs + ?rz) - ?rs = ?mz - (?rs - ?ms)" using c by auto
        with False e show ?thesis by (metis of_nat_unat ucast_id)
      qed
      show ?thesis
        using True notin int sz gt
        by (simp add: remap_overlap_def Let_def intersection_descriptor_def mx)
    next
      case False
      have "\<not> regions_intersect m r"
        using notin False inr[of "phys_start m"] inm[of "phys_start r"] mb rb
        by (auto simp: regions_intersect_iff)
      then show ?thesis
        using notin False by (simp add: remap_overlap_def)
    qed
  qed
qed


lemma map_calls_append: "map_calls (a @ b) = map_calls a @ map_calls b"
  by (induction a rule: map_calls.induct) simp_all

lemma remap_loop_map_calls:
  assumes "\<forall>r \<in> set rs. remap_overlap mem r =
             (if regions_intersect mem r then Some (intersection_descriptor mem r) else None)"
    and "mode = WARN_ON_ERROR \<or> fst (remap_to_root_cell_loop E mem mode rs err s) = None"
  shows "map_calls (trace (snd (remap_to_root_cell_loop E mem mode rs err s))) =
           map_calls (trace s) @
           map (\<lambda>r. (root_cell, intersection_descriptor mem r)) (filter (regions_intersect mem) rs)"
  using assms
proof (induction rs arbitrary: err s)
  case Nil
  then show ?case by simp
next
  case (Cons r rs)
  have rest: "\<forall>r \<in> set rs. remap_overlap mem r =
             (if regions_intersect mem r then Some (intersection_descriptor mem r) else None)"
    using Cons.prems(1) by simp
  show ?case
  proof (cases "regions_intersect mem r")
    case False
    then have ov: "remap_overlap mem r = None" using Cons.prems(1) by simp
    show ?thesis
      using Cons.IH[OF rest, of err s] Cons.prems(2) False by (simp add: ov)
  next
    case True
    then have ov: "remap_overlap mem r = Some (intersection_descriptor mem r)"
      using Cons.prems(1) by simp
    let ?ev = "Arch_map_memory_region root_cell (intersection_descriptor mem r)"
    show ?thesis
    proof (cases "arch_result E (trace s) ?ev")
      case None
      then show ?thesis
        using Cons.IH[OF rest, of None "call ?ev s"] Cons.prems(2) True
        by (simp add: ov arch_map_memory_region_def call_status_def map_calls_append)
    next
      case (Some e)
      with Cons.prems(2) have w: "mode = WARN_ON_ERROR"
        by (cases mode) (auto simp: ov arch_map_memory_region_def call_status_def)
      show ?thesis
        using Cons.IH[OF rest, of "Some e" "printk Warning_failed_to_reassign (call ?ev s)"] w Some True
        by (simp add: ov arch_map_memory_region_def call_status_def map_calls_append printk_def)
    qed
  qed
qed

lemma remap_loop_abort_stops:
  assumes ov: "\<forall>r \<in> set rs. remap_overlap mem r =
             (if regions_intersect mem r then Some (intersection_descriptor mem r) else None)"
    and res: "fst (remap_to_root_cell_loop E mem ABORT_ON_ERROR rs None s) = Some e"
  shows "\<exists>before r after. rs = before @ r # after \<and> regions_intersect mem r \<and>
           trace (snd (remap_to_root_cell_loop E mem ABORT_ON_ERROR rs None s)) =
             trace s @ map (overlap_call mem) (filter (regions_intersect mem) before @ [r]) \<and>
           arch_result E (trace s @ map (overlap_call mem) (filter (regions_intersect mem) before))
             (overlap_call mem r) = Some e \<and>
           (\<forall>b1 x b2. before = b1 @ x # b2 \<and> regions_intersect mem x \<longrightarrow>
              arch_result E (trace s @ map (overlap_call mem) (filter (regions_intersect mem) b1))
                (overlap_call mem x) = None)"
  using assms
proof (induction rs arbitrary: s)
  case Nil
  then show ?case by simp
next
  case (Cons r rs)
  have rest: "\<forall>r \<in> set rs. remap_overlap mem r =
             (if regions_intersect mem r then Some (intersection_descriptor mem r) else None)"
    using Cons.prems(1) by simp
  show ?case
  proof (cases "regions_intersect mem r")
    case False
    then have o: "remap_overlap mem r = None" using Cons.prems(1) by simp
    have eq: "remap_to_root_cell_loop E mem ABORT_ON_ERROR (r # rs) None s =
              remap_to_root_cell_loop E mem ABORT_ON_ERROR rs None s"
      by (simp add: o)
    from Cons.IH[OF rest Cons.prems(2)[unfolded eq]] obtain before x after where
      h: "rs = before @ x # after" "regions_intersect mem x"
         "trace (snd (remap_to_root_cell_loop E mem ABORT_ON_ERROR rs None s)) =
             trace s @ map (overlap_call mem) (filter (regions_intersect mem) before @ [x])"
         "arch_result E (trace s @ map (overlap_call mem) (filter (regions_intersect mem) before))
             (overlap_call mem x) = Some e"
         "\<forall>b1 y b2. before = b1 @ y # b2 \<and> regions_intersect mem y \<longrightarrow>
              arch_result E (trace s @ map (overlap_call mem) (filter (regions_intersect mem) b1))
                (overlap_call mem y) = None"
      by blast
    have earlier: "arch_result E (trace s @ map (overlap_call mem) (filter (regions_intersect mem) b1))
                (overlap_call mem y) = None"
      if "r # before = b1 @ y # b2" "regions_intersect mem y" for b1 y b2
    proof (cases b1)
      case Nil
      with that False show ?thesis by simp
    next
      case (Cons a b1')
      with that have "before = b1' @ y # b2" "a = r" by simp_all
      with h(5) that(2) have "arch_result E (trace s @ map (overlap_call mem)
          (filter (regions_intersect mem) b1')) (overlap_call mem y) = None" by blast
      then show ?thesis using Cons \<open>a = r\<close> False by simp
    qed
    show ?thesis
      unfolding eq
      apply (rule exI[of _ "r # before"], rule exI[of _ x], rule exI[of _ after])
      using h(1-4) False earlier by simp
  next
    case True
    then have o: "remap_overlap mem r = Some (intersection_descriptor mem r)"
      using Cons.prems(1) by simp
    let ?ev = "overlap_call mem r"
    show ?thesis
    proof (cases "arch_result E (trace s) ?ev")
      case (Some e')
      then have eq: "remap_to_root_cell_loop E mem ABORT_ON_ERROR (r # rs) None s =
                     (Some e', call ?ev s)"
        by (simp add: o arch_map_memory_region_def call_status_def overlap_call_def)
      with Cons.prems(2) have e: "e' = e" by simp
      show ?thesis
        unfolding eq
        apply (rule exI[of _ "[]"], rule exI[of _ r], rule exI[of _ rs])
        using True Some e by simp
    next
      case None
      then have eq: "remap_to_root_cell_loop E mem ABORT_ON_ERROR (r # rs) None s =
                     remap_to_root_cell_loop E mem ABORT_ON_ERROR rs None (call ?ev s)"
        by (simp add: o arch_map_memory_region_def call_status_def overlap_call_def)
      from Cons.IH[OF rest Cons.prems(2)[unfolded eq]] obtain before x after where
        h: "rs = before @ x # after" "regions_intersect mem x"
           "trace (snd (remap_to_root_cell_loop E mem ABORT_ON_ERROR rs None (call ?ev s))) =
               trace (call ?ev s) @
               map (overlap_call mem) (filter (regions_intersect mem) before @ [x])"
           "arch_result E (trace (call ?ev s) @
               map (overlap_call mem) (filter (regions_intersect mem) before))
               (overlap_call mem x) = Some e"
           "\<forall>b1 y b2. before = b1 @ y # b2 \<and> regions_intersect mem y \<longrightarrow>
                arch_result E (trace (call ?ev s) @
                  map (overlap_call mem) (filter (regions_intersect mem) b1))
                  (overlap_call mem y) = None"
        by blast
      have earlier: "arch_result E (trace s @ map (overlap_call mem) (filter (regions_intersect mem) b1))
                  (overlap_call mem y) = None"
        if "r # before = b1 @ y # b2" "regions_intersect mem y" for b1 y b2
      proof (cases b1)
        case Nil
        with that None show ?thesis by simp
      next
        case (Cons a b1')
        with that have "before = b1' @ y # b2" "a = r" by simp_all
        with h(5) that(2) have "arch_result E (trace (call ?ev s) @ map (overlap_call mem)
            (filter (regions_intersect mem) b1')) (overlap_call mem y) = None" by blast
        then show ?thesis using Cons \<open>a = r\<close> True by simp
      qed
      show ?thesis
        unfolding eq
        apply (rule exI[of _ "r # before"], rule exI[of _ x], rule exI[of _ after])
        using h(1-4) True earlier by simp
    qed
  qed
qed

lemma sample_split_root_regions:
  "jailhouse_cell_mem_regions (config (cells sample_split_root_state root_cell)) =
     [\<lparr>phys_start = 0, virt_start = 0, size_mem = 0x2000, flags = 7\<rparr>,
      \<lparr>phys_start = 0x2000, virt_start = 0x2000, size_mem = 0x2000, flags = 7\<rparr>]"
  "trace sample_split_root_state = []"
  by (simp_all add: sample_split_root_state_def sample_state_def root_cell_def)

text \<open>
  C3, as amended. Let the region \<open>mem\<close> and every region of the root cell be non-empty
  and end below \<open>2^64\<close>. Then the loop body of \<open>remap_to_root_cell\<close> builds an
  overlap descriptor for a root region exactly when the two physical intervals intersect,
  and the descriptor is that of the intersection: it starts at the larger start, its size
  is the smaller end minus that start, its virtual start is offset by the root region's
  distance between physical and virtual addresses, and it has the root region's flags. In
  mode \<open>WARN_ON_ERROR\<close>, and in mode \<open>ABORT_ON_ERROR\<close> when no mapping fails,
  \<open>remap_to_root_cell\<close> calls \<open>arch_map_memory_region\<close> on the root cell with
  exactly these descriptors, one for every intersecting root region, in the order of the
  root regions; adjacent and disjoint pairs cause no call. In mode \<open>ABORT_ON_ERROR\<close>
  the loop stops at the first mapping that fails: when the result is an error, the calls
  of the remap are the mappings for the intersecting root regions up to one of them, in
  their order and with nothing else; the mappings before the last succeeded, the last one
  failed with the error that is returned, and no root region after it is visited.
\<close>

theorem remap_to_root_cell_intersections:
  assumes "region_in_range mem"
    and "\<forall>r \<in> set (jailhouse_cell_mem_regions (config (cells s root_cell))). region_in_range r"
  shows "(\<forall>r \<in> set (jailhouse_cell_mem_regions (config (cells s root_cell))).
            remap_overlap mem r =
              (if regions_intersect mem r then Some (intersection_descriptor mem r) else None)) \<and>
         (mode = WARN_ON_ERROR \<or> fst (remap_to_root_cell E mem mode s) = None \<longrightarrow>
            map_calls (trace (snd (remap_to_root_cell E mem mode s))) =
              map_calls (trace s) @
              map (\<lambda>r. (root_cell, intersection_descriptor mem r))
                (filter (regions_intersect mem)
                   (jailhouse_cell_mem_regions (config (cells s root_cell))))) \<and>
         (\<forall>e. mode = ABORT_ON_ERROR \<and> fst (remap_to_root_cell E mem mode s) = Some e \<longrightarrow>
            (\<exists>before r after.
               jailhouse_cell_mem_regions (config (cells s root_cell)) = before @ r # after \<and>
               regions_intersect mem r \<and>
               trace (snd (remap_to_root_cell E mem mode s)) =
                 trace s @ map (overlap_call mem) (filter (regions_intersect mem) before @ [r]) \<and>
               arch_result E
                 (trace s @ map (overlap_call mem) (filter (regions_intersect mem) before))
                 (overlap_call mem r) = Some e \<and>
               (\<forall>b1 x b2. before = b1 @ x # b2 \<and> regions_intersect mem x \<longrightarrow>
                  arch_result E
                    (trace s @ map (overlap_call mem) (filter (regions_intersect mem) b1))
                    (overlap_call mem x) = None)))"
proof -
  have ov: "\<forall>r \<in> set (jailhouse_cell_mem_regions (config (cells s root_cell))).
            remap_overlap mem r =
              (if regions_intersect mem r then Some (intersection_descriptor mem r) else None)"
    using assms remap_overlap_intersection by blast
  have abort: "\<exists>before r after.
               jailhouse_cell_mem_regions (config (cells s root_cell)) = before @ r # after \<and>
               regions_intersect mem r \<and>
               trace (snd (remap_to_root_cell E mem mode s)) =
                 trace s @ map (overlap_call mem) (filter (regions_intersect mem) before @ [r]) \<and>
               arch_result E
                 (trace s @ map (overlap_call mem) (filter (regions_intersect mem) before))
                 (overlap_call mem r) = Some e \<and>
               (\<forall>b1 x b2. before = b1 @ x # b2 \<and> regions_intersect mem x \<longrightarrow>
                  arch_result E
                    (trace s @ map (overlap_call mem) (filter (regions_intersect mem) b1))
                    (overlap_call mem x) = None)"
    if "mode = ABORT_ON_ERROR" "fst (remap_to_root_cell E mem mode s) = Some e" for e
    using remap_loop_abort_stops[OF ov, of E s e] that unfolding remap_to_root_cell_def by simp
  show ?thesis
    using ov remap_loop_map_calls[OF ov] abort unfolding remap_to_root_cell_def by blast
qed

theorem remap_to_root_cell_intersections_witness:
  "region_in_range \<lparr>phys_start = 0x1000, virt_start = 0, size_mem = 0x2000, flags = 71\<rparr> \<and>
   jailhouse_cell_mem_regions (config (cells sample_split_root_state root_cell)) =
     [\<lparr>phys_start = 0, virt_start = 0, size_mem = 0x2000, flags = 7\<rparr>,
      \<lparr>phys_start = 0x2000, virt_start = 0x2000, size_mem = 0x2000, flags = 7\<rparr>] \<and>
   region_in_range \<lparr>phys_start = 0, virt_start = 0, size_mem = 0x2000, flags = 7\<rparr> \<and>
   region_in_range \<lparr>phys_start = 0x2000, virt_start = 0x2000, size_mem = 0x2000, flags = 7\<rparr> \<and>
   regions_intersect \<lparr>phys_start = 0x1000, virt_start = 0, size_mem = 0x2000, flags = 71\<rparr>
     \<lparr>phys_start = 0, virt_start = 0, size_mem = 0x2000, flags = 7\<rparr> \<and>
   regions_intersect \<lparr>phys_start = 0x1000, virt_start = 0, size_mem = 0x2000, flags = 71\<rparr>
     \<lparr>phys_start = 0x2000, virt_start = 0x2000, size_mem = 0x2000, flags = 7\<rparr> \<and>
   map_calls (trace (snd (remap_to_root_cell sample_failing_env
       \<lparr>phys_start = 0x1000, virt_start = 0, size_mem = 0x2000, flags = 71\<rparr>
       WARN_ON_ERROR sample_split_root_state))) =
     [(root_cell, \<lparr>phys_start = 0x1000, virt_start = 0x1000, size_mem = 0x1000, flags = 7\<rparr>),
      (root_cell, \<lparr>phys_start = 0x2000, virt_start = 0x2000, size_mem = 0x1000, flags = 7\<rparr>)] \<and>
   fst (remap_to_root_cell sample_failing_env
       \<lparr>phys_start = 0x1000, virt_start = 0, size_mem = 0x2000, flags = 71\<rparr>
       ABORT_ON_ERROR sample_split_root_state) = Some ENOMEM \<and>
   trace (snd (remap_to_root_cell sample_failing_env
       \<lparr>phys_start = 0x1000, virt_start = 0, size_mem = 0x2000, flags = 71\<rparr>
       ABORT_ON_ERROR sample_split_root_state)) =
     [Arch_map_memory_region root_cell
        \<lparr>phys_start = 0x1000, virt_start = 0x1000, size_mem = 0x1000, flags = 7\<rparr>]"
proof -
  let ?m = "\<lparr>phys_start = 0x1000, virt_start = 0, size_mem = 0x2000, flags = 71\<rparr>"
  let ?r1 = "\<lparr>phys_start = 0, virt_start = 0, size_mem = 0x2000, flags = 7\<rparr>"
  let ?r2 = "\<lparr>phys_start = 0x2000, virt_start = 0x2000, size_mem = 0x2000, flags = 7\<rparr>"
  let ?s = sample_split_root_state
  have rng: "region_in_range ?m" "region_in_range ?r1" "region_in_range ?r2"
    by (simp_all add: region_in_range_def)
  have int: "regions_intersect ?m ?r1" "regions_intersect ?m ?r2"
    by (simp_all add: regions_intersect_iff)
  have d: "intersection_descriptor ?m ?r1 =
             \<lparr>phys_start = 0x1000, virt_start = 0x1000, size_mem = 0x1000, flags = 7\<rparr>"
    "intersection_descriptor ?m ?r2 =
             \<lparr>phys_start = 0x2000, virt_start = 0x2000, size_mem = 0x1000, flags = 7\<rparr>"
    by (simp_all add: intersection_descriptor_def)
  have all: "\<forall>r \<in> set (jailhouse_cell_mem_regions (config (cells ?s root_cell))).
               region_in_range r"
    using rng by (simp add: sample_split_root_regions)
  have fails: "arch_result sample_failing_env t ev = Some ENOMEM" for t ev
    by (simp add: sample_failing_env_def)
  have res: "fst (remap_to_root_cell sample_failing_env ?m ABORT_ON_ERROR ?s) = Some ENOMEM"
    by (simp add: remap_to_root_cell_def sample_split_root_regions remap_overlap_def
          address_in_region_def arch_map_memory_region_def call_status_def fails)
  note inst = remap_to_root_cell_intersections[OF rng(1) all, of _ sample_failing_env]
  from inst[of WARN_ON_ERROR]
  have warn: "map_calls (trace (snd (remap_to_root_cell sample_failing_env ?m WARN_ON_ERROR ?s))) =
     [(root_cell, \<lparr>phys_start = 0x1000, virt_start = 0x1000, size_mem = 0x1000, flags = 7\<rparr>),
      (root_cell, \<lparr>phys_start = 0x2000, virt_start = 0x2000, size_mem = 0x1000, flags = 7\<rparr>)]"
    using int by (simp add: sample_split_root_regions d)
  from inst[of ABORT_ON_ERROR] res obtain before r after where
    sp: "[?r1, ?r2] = before @ r # after"
    and tr: "trace (snd (remap_to_root_cell sample_failing_env ?m ABORT_ON_ERROR ?s)) =
         map (overlap_call ?m) (filter (regions_intersect ?m) before @ [r])"
    and earlier: "\<forall>b1 x b2. before = b1 @ x # b2 \<and> regions_intersect ?m x \<longrightarrow>
                  arch_result sample_failing_env
                    (map (overlap_call ?m) (filter (regions_intersect ?m) b1))
                    (overlap_call ?m x) = None"
    by (auto simp: sample_split_root_regions)
  have "before = []"
  proof (cases before)
    case (Cons a b)
    with sp have "a = ?r1" by simp
    with earlier[rule_format, of "[]" a b] Cons int(1) show ?thesis by (simp add: fails)
  qed simp
  with sp have "r = ?r1" by simp
  with tr \<open>before = []\<close> have abort:
    "trace (snd (remap_to_root_cell sample_failing_env ?m ABORT_ON_ERROR ?s)) =
     [Arch_map_memory_region root_cell
        \<lparr>phys_start = 0x1000, virt_start = 0x1000, size_mem = 0x1000, flags = 7\<rparr>]"
    by (simp add: overlap_call_def d)
  show ?thesis
    using rng int warn res abort by (simp add: sample_split_root_regions)
qed

text \<open>
  C3 as stated fails for an empty region: a region of size 0 that starts inside a root
  region intersects nothing, yet a descriptor of size 0 is mapped into the root cell.
\<close>

theorem remap_to_root_cell_empty_region_counterexample:
  "\<not> regions_intersect \<lparr>phys_start = 0x1000, virt_start = 0, size_mem = 0, flags = 71\<rparr>
       \<lparr>phys_start = 0, virt_start = 0, size_mem = 0x100000, flags = 7\<rparr> \<and>
   jailhouse_cell_mem_regions (config (cells sample_state root_cell)) =
     [\<lparr>phys_start = 0, virt_start = 0, size_mem = 0x100000, flags = 7\<rparr>] \<and>
   trace (snd (remap_to_root_cell sample_env
       \<lparr>phys_start = 0x1000, virt_start = 0, size_mem = 0, flags = 71\<rparr>
       WARN_ON_ERROR sample_state)) =
     [Arch_map_memory_region root_cell
        \<lparr>phys_start = 0x1000, virt_start = 0x1000, size_mem = 0, flags = 7\<rparr>]"
  by (simp add: sample_state_def sample_root_def sample_env_def root_cell_def
        regions_intersect_iff remap_to_root_cell_def remap_overlap_def address_in_region_def
        arch_map_memory_region_def call_status_def call_def)

section \<open>State changes of the management operations\<close>

lemma jailhouse_send_msg_to_cell_frame [simp]:
  "trace (jailhouse_send_msg_to_cell c m s) = trace s"
  "cell_list (jailhouse_send_msg_to_cell c m s) = cell_list s"
  "per_cpu (jailhouse_send_msg_to_cell c m s) = per_cpu s"
  "num_cells (jailhouse_send_msg_to_cell c m s) = num_cells s"
  "cell_id (cells (jailhouse_send_msg_to_cell c m s) p) = cell_id (cells s p)"
  "config (cells (jailhouse_send_msg_to_cell c m s) p) = config (cells s p)"
  "cpu_set (cells (jailhouse_send_msg_to_cell c m s) p) = cpu_set (cells s p)"
  "cpu_set_page (cells (jailhouse_send_msg_to_cell c m s) p) = cpu_set_page (cells s p)"
  "loadable (cells (jailhouse_send_msg_to_cell c m s) p) = loadable (cells s p)"
  "data_pages (cells (jailhouse_send_msg_to_cell c m s) p) = data_pages (cells s p)"
  "cell_state (comm_region (cells (jailhouse_send_msg_to_cell c m s) p)) =
     cell_state (comm_region (cells s p))"
  by (simp_all add: jailhouse_send_msg_to_cell_def)

lemma same_but_msg_refl [simp]: "same_but_msg s s"
  unfolding same_but_msg_def by simp

lemma same_but_msg_trans:
  "same_but_msg s s1 \<Longrightarrow> same_but_msg s1 s2 \<Longrightarrow> same_but_msg s s2"
  unfolding same_but_msg_def by simp

lemma same_but_msg_send [simp]: "same_but_msg s (jailhouse_send_msg_to_cell c m s)"
  unfolding same_but_msg_def jailhouse_send_msg_to_cell_def by simp

lemma same_but_msg_fields:
  assumes "same_but_msg s s'"
  shows "cell_id (cells s' p) = cell_id (cells s p)"
    "config (cells s' p) = config (cells s p)"
    "cpu_set (cells s' p) = cpu_set (cells s p)"
    "cpu_set_page (cells s' p) = cpu_set_page (cells s p)"
    "loadable (cells s' p) = loadable (cells s p)"
    "data_pages (cells s' p) = data_pages (cells s p)"
    "cell_state (comm_region (cells s' p)) = cell_state (comm_region (cells s p))"
    "trace s' = trace s" "cell_list s' = cell_list s" "per_cpu s' = per_cpu s"
    "num_cells s' = num_cells s"
  using assms unfolding same_but_msg_def by simp_all

lemma cell_send_message_state:
  "cell_send_message K E c m type s = Some (b, s') \<Longrightarrow>
     s' = s \<or> s' = jailhouse_send_msg_to_cell c m s"
  by (auto simp: cell_send_message_def Let_def split: if_splits option.splits)

lemma cell_send_message_same:
  "cell_send_message K E c m type s = Some (b, s') \<Longrightarrow> same_but_msg s s'"
  by (drule cell_send_message_state) auto

lemma cell_reconfig_completed_loop_same:
  "cell_reconfig_completed_loop K E cs s = Some s' \<Longrightarrow> same_but_msg s s'"
proof (induction cs arbitrary: s)
  case Nil
  then show ?case by simp
next
  case (Cons c cs)
  then obtain b s1 where
    1: "cell_send_message K E c (JAILHOUSE_MSG_RECONFIG_COMPLETED K) MSG_INFORMATION s = Some (b, s1)"
    and 2: "cell_reconfig_completed_loop K E cs s1 = Some s'"
    by (auto split: option.splits)
  show ?case
    using same_but_msg_trans[OF cell_send_message_same[OF 1] Cons.IH[OF 2]] .
qed

lemma cell_reconfig_completed_same:
  "cell_reconfig_completed K E s = Some s' \<Longrightarrow> same_but_msg s s'"
  unfolding cell_reconfig_completed_def by (rule cell_reconfig_completed_loop_same)

text \<open>The outcome of the prologue.\<close>

lemma prologue_success:
  assumes "cell_management_prologue K E task cpu_data ident s = Some (Inr c, s1)"
  shows "cpu_cell (per_cpu s cpu_data) = root_cell \<and> c \<noteq> root_cell \<and> c \<in> set (cell_list s) \<and>
         (\<exists>s0. same_but_msg s s0 \<and>
            s1 = s0\<lparr>trace := trace s @
                   map Arch_suspend_cpu
                     (for_each_cpu_except (cpu_set (cells s root_cell)) (of_nat cpu_data)) @
                   map Arch_suspend_cpu
                     (for_each_cpu_except (cpu_set (cells s c)) (of_nat cpu_data))\<rparr>)"
proof -
  let ?sa = "cell_suspend root_cell cpu_data s"
  from assms have root: "cpu_cell (per_cpu s cpu_data) = root_cell"
    by (auto simp: cell_management_prologue_def split: if_splits)
  from assms root obtain s2 where
    f: "find (\<lambda>c. ucast (cell_id (cells s c)) = ident) (for_each_cell s) = Some c"
    and nr: "c \<noteq> root_cell"
    and ok: "cell_shutdown_ok K E c ?sa = Some (True, s2)"
    and s1: "s1 = cell_suspend c cpu_data s2"
    by (auto simp: cell_management_prologue_def Let_def for_each_cell_def
          split: if_splits option.splits bool.splits)
  from f have "c \<in> set (for_each_cell s)"
    by (auto simp: find_Some_iff)
  with nr have mem: "c \<in> set (cell_list s)"
    by (simp add: for_each_cell_def)
  from ok have sb: "same_but_msg ?sa s2"
    unfolding cell_shutdown_ok_def by (rule cell_send_message_same)
  define s0 where "s0 = s2\<lparr>trace := trace s\<rparr>"
  have sb0: "same_but_msg s s0"
    using sb unfolding same_but_msg_def s0_def by (simp add: cell_suspend_eq)
  have tr2: "trace s2 = trace s @ map Arch_suspend_cpu
                     (for_each_cpu_except (cpu_set (cells s root_cell)) (of_nat cpu_data))"
    using same_but_msg_fields(8)[OF sb] by (simp add: cell_suspend_eq)
  have cs: "cpu_set (cells s2 c) = cpu_set (cells s c)"
    using same_but_msg_fields(3)[OF sb] by simp
  have "s1 = s0\<lparr>trace := trace s @
                   map Arch_suspend_cpu
                     (for_each_cpu_except (cpu_set (cells s root_cell)) (of_nat cpu_data)) @
                   map Arch_suspend_cpu
                     (for_each_cpu_except (cpu_set (cells s c)) (of_nat cpu_data))\<rparr>"
    unfolding s1 s0_def cell_suspend_eq tr2 cs by simp
  with root nr mem sb0 show ?thesis by blast
qed


lemma fold_cell_set_loadable_cpu:
  "fold cell_set_loadable_cpu xs s =
     s\<lparr>per_cpu := (\<lambda>cpu. if cpu \<in> set xs then (per_cpu s cpu)\<lparr>failed := False\<rparr>
                          else per_cpu s cpu),
       trace := trace s @ map Arch_park_cpu xs\<rparr>"
proof (induction xs arbitrary: s)
  case Nil
  then show ?case by simp
next
  case (Cons x xs)
  have "(\<lambda>cpu. if cpu \<in> set xs
              then (((per_cpu s)(x := (per_cpu s x)\<lparr>failed := False\<rparr>)) cpu)\<lparr>failed := False\<rparr>
              else ((per_cpu s)(x := (per_cpu s x)\<lparr>failed := False\<rparr>)) cpu) =
        (\<lambda>cpu. if cpu \<in> set (x # xs) then (per_cpu s cpu)\<lparr>failed := False\<rparr> else per_cpu s cpu)"
    by (rule ext) simp
  then have "(cell_set_loadable_cpu x s)
      \<lparr>per_cpu := (\<lambda>cpu. if cpu \<in> set xs
                          then (per_cpu (cell_set_loadable_cpu x s) cpu)\<lparr>failed := False\<rparr>
                          else per_cpu (cell_set_loadable_cpu x s) cpu),
       trace := trace (cell_set_loadable_cpu x s) @ map Arch_park_cpu xs\<rparr> =
     s\<lparr>per_cpu := (\<lambda>cpu. if cpu \<in> set (x # xs) then (per_cpu s cpu)\<lparr>failed := False\<rparr>
                          else per_cpu s cpu),
       trace := trace s @ map Arch_park_cpu (x # xs)\<rparr>"
    by (simp add: cell_set_loadable_cpu_def arch_park_cpu_def call_def cong: if_cong)
  then show ?case
    using Cons.IH[of "cell_set_loadable_cpu x s"] by simp
qed

lemma appends_quietlyD:
  assumes "appends_quietly s s'"
  obtains new where "s' = s\<lparr>trace := trace s @ new\<rparr>" "suspends_resumes new = []"
  using assms unfolding appends_quietly_def by blast

lemma appends_quietly_status:
  "\<not> is_suspend_resume ev \<Longrightarrow> appends_quietly s (snd (call_status E ev s))"
  by (simp add: appends_quietly_call)

lemma remap_to_root_cell_quiet: "appends_quietly s (snd (remap_to_root_cell E mem mode s))"
  unfolding remap_to_root_cell_def by (rule remap_loop_quiet)

lemma unmap_from_root_cell_quiet: "appends_quietly s (snd (unmap_from_root_cell E mem s))"
  unfolding unmap_from_root_cell_def Let_def arch_unmap_memory_region_def
  by (rule appends_quietly_status) simp

lemma cell_set_loadable_remap_loop_quiet:
  "appends_quietly s (snd (cell_set_loadable_remap_loop K E ms s))"
proof (induction ms arbitrary: s)
  case Nil
  then show ?case by simp
next
  case (Cons m ms)
  obtain e s1 where r: "remap_to_root_cell E m ABORT_ON_ERROR s = (e, s1)"
    by (cases "remap_to_root_cell E m ABORT_ON_ERROR s")
  have q: "appends_quietly s s1"
    using remap_to_root_cell_quiet[of s E m ABORT_ON_ERROR] r by simp
  show ?case
    using Cons[of s] appends_quietly_trans[OF q Cons[of s1]] q r
    by (auto split: option.splits)
qed

lemma cell_start_unmap_loop_quiet:
  "appends_quietly s (snd (cell_start_unmap_loop K E ms s))"
proof (induction ms arbitrary: s)
  case Nil
  then show ?case by simp
next
  case (Cons m ms)
  obtain e s1 where r: "unmap_from_root_cell E m s = (e, s1)"
    by (cases "unmap_from_root_cell E m s")
  have q: "appends_quietly s s1"
    using unmap_from_root_cell_quiet[of s E m] r by simp
  show ?case
    using Cons[of s] appends_quietly_trans[OF q Cons[of s1]] q r
    by (auto split: option.splits)
qed

lemma cell_set_loadable_after_prologue:
  assumes "cell_management_prologue K E CELL_SET_LOADABLE cpu_data ident s = Some (Inr c, s1)"
  shows "\<exists>r s' new. cell_set_loadable K E cpu_data ident s = Some (r, s') \<and>
           trace s' = trace s1 @ map Arch_park_cpu (for_each_cpu (cpu_set (cells s c))) @ new @
             map Arch_resume_cpu
               (for_each_cpu_except (cpu_set (cells s root_cell)) (of_nat cpu_data)) \<and>
           suspends_resumes new = [] \<and>
           per_cpu s' = (\<lambda>cpu. if cpu \<in> set (for_each_cpu (cpu_set (cells s c)))
                                then (per_cpu s cpu)\<lparr>failed := False\<rparr> else per_cpu s cpu) \<and>
           cpu_set (cells s' root_cell) = cpu_set (cells s root_cell) \<and>
           cell_list s' = cell_list s \<and> num_cells s' = num_cells s"
proof -
  from prologue_success[OF assms(1)] obtain s0 where
    root: "cpu_cell (per_cpu s cpu_data) = root_cell" and nr: "c \<noteq> root_cell"
    and sb: "same_but_msg s s0"
    and s1: "s1 = s0\<lparr>trace := trace s @
                   map Arch_suspend_cpu
                     (for_each_cpu_except (cpu_set (cells s root_cell)) (of_nat cpu_data)) @
                   map Arch_suspend_cpu
                     (for_each_cpu_except (cpu_set (cells s c)) (of_nat cpu_data))\<rparr>"
    by blast
  note f = same_but_msg_fields[OF sb]
  have c1: "cells s1 = cells s0" "per_cpu s1 = per_cpu s" "cell_list s1 = cell_list s"
    "num_cells s1 = num_cells s"
    unfolding s1 using f by simp_all
  let ?P = "for_each_cpu (cpu_set (cells s c))"
  let ?R = "for_each_cpu_except (cpu_set (cells s root_cell)) (of_nat cpu_data)"
  let ?pc = "\<lambda>cpu. if cpu \<in> set ?P then (per_cpu s cpu)\<lparr>failed := False\<rparr> else per_cpu s cpu"
  define s2 where "s2 = fold cell_set_loadable_cpu (for_each_cpu (cpu_set (cells s1 c))) s1"
  have s2: "s2 = s1\<lparr>per_cpu := ?pc, trace := trace s1 @ map Arch_park_cpu ?P\<rparr>"
    unfolding s2_def by (simp add: fold_cell_set_loadable_cpu c1 f cong: if_cong)
  have cc: "cpu_cell (?pc cpu_data) = root_cell"
    using root by simp
  show ?thesis
  proof (cases "loadable (cells s2 c)")
    case True
    then have res: "cell_set_loadable K E cpu_data ident s = Some (None, cell_resume cpu_data s2)"
      using assms(1) by (simp add: cell_set_loadable_def Let_def s2_def)
    show ?thesis
      apply (rule exI[of _ None], rule exI[of _ "cell_resume cpu_data s2"], rule exI[of _ "[]"])
      using cc by (simp add: res cell_resume_eq s2 c1 f suspends_resumes_def)
  next
    case False
    define s3 where "s3 = s2\<lparr>cells := (cells s2)(c := (cells s2 c)
                       \<lparr>comm_region := (comm_region (cells s2 c))
                          \<lparr>cell_state := JAILHOUSE_CELL_SHUT_DOWN K\<rparr>,
                        loadable := True\<rparr>)\<rparr>"
    obtain e s4 where loop: "cell_set_loadable_remap_loop K E
                    (jailhouse_cell_mem_regions (config (cells s3 c))) s3 = (e, s4)"
      by (cases "cell_set_loadable_remap_loop K E
                    (jailhouse_cell_mem_regions (config (cells s3 c))) s3")
    from cell_set_loadable_remap_loop_quiet[of s3 K E "jailhouse_cell_mem_regions (config (cells s3 c))"]
    obtain new where s4: "s4 = s3\<lparr>trace := trace s3 @ new\<rparr>" and q: "suspends_resumes new = []"
      using loop by (auto elim: appends_quietlyD)
    have root3: "cpu_set (cells s3 root_cell) = cpu_set (cells s root_cell)"
      using nr by (simp add: s3_def s2 c1 f)
    show ?thesis
    proof (cases e)
      case (Some err)
      have res: "cell_set_loadable K E cpu_data ident s = Some (Some err, cell_resume cpu_data s4)"
        using assms(1) False loop Some
        by (simp add: cell_set_loadable_def Let_def s2_def[symmetric] s3_def[symmetric])
      show ?thesis
        apply (rule exI[of _ "Some err"], rule exI[of _ "cell_resume cpu_data s4"],
               rule exI[of _ new])
        using cc q root3 by (simp add: res cell_resume_eq s4 s3_def s2 c1 f)
    next
      case None
      let ?s6 = "printk (Cell_can_be_loaded (name (config (cells (arch_config_commit None s4) c))))
                   (arch_config_commit None s4)"
      have res: "cell_set_loadable K E cpu_data ident s = Some (None, cell_resume cpu_data ?s6)"
        using assms(1) False loop None
        by (simp add: cell_set_loadable_def Let_def s2_def[symmetric] s3_def[symmetric])
      show ?thesis
        apply (rule exI[of _ None], rule exI[of _ "cell_resume cpu_data ?s6"],
               rule exI[of _ "new @ [Arch_config_commit None,
                       Printk (Cell_can_be_loaded (name (config (cells s4 c))))]"])
        using cc q root3
        by (simp add: res cell_resume_eq s4 s3_def s2 c1 f printk_def arch_config_commit_def
              suspends_resumes_def)
    qed
  qed
qed


subsection \<open>Facts about the example configuration\<close>

lemma upt_4: "[0..<4] = [0, 1, 2, 3::nat]"
  by (simp add: upt_rec)

lemma unat_m1_u32: "unat (- 1 :: u32) = 4294967295"
  by (simp add: unsigned_minus_1_eq_mask mask_eq_exp_minus_1)

lemma sample_cpus [simp]:
  "for_each_cpu_except \<lparr>max_cpu_id = 3, bitmap = {0, Suc 0}\<rparr> 0 = [1]"
  "for_each_cpu_except \<lparr>max_cpu_id = 3, bitmap = {2}\<rparr> 0 = [2]"
  "for_each_cpu_except \<lparr>max_cpu_id = 3, bitmap = {0, Suc 0, 2}\<rparr> 0 = [1, 2]"
  "for_each_cpu \<lparr>max_cpu_id = 3, bitmap = {2}\<rparr> = [2]"
  by (simp_all add: for_each_cpu_def for_each_cpu_except_def test_bit_def upt_4 unat_m1_u32)

lemma sample_state_simps [simp]:
  "cell_list sample_state = [1]"
  "cells sample_state 0 = sample_root"
  "cells sample_state (Suc 0) = sample_guest"
  "cpu_cell (per_cpu sample_state 0) = 0"
  "trace sample_state = []"
  "num_cells sample_state = 2"
  by (simp_all add: sample_state_def)

lemma sample_loadable_state_simps [simp]:
  "cell_list sample_loadable_state = [1]"
  "cells sample_loadable_state 0 = sample_root"
  "cells sample_loadable_state (Suc 0) = sample_guest\<lparr>loadable := True\<rparr>"
  "cpu_cell (per_cpu sample_loadable_state 0) = 0"
  "trace sample_loadable_state = []"
  "num_cells sample_loadable_state = 2"
  by (simp_all add: sample_loadable_state_def sample_state_def)

lemma sample_cell_simps [simp]:
  "cell_id sample_root = 0" "cell_id sample_guest = 1"
  "cpu_set sample_root = \<lparr>max_cpu_id = 3, bitmap = {0, 1}\<rparr>"
  "cpu_set sample_guest = \<lparr>max_cpu_id = 3, bitmap = {2}\<rparr>"
  "flags_desc (config sample_guest) = 0"
  "loadable sample_guest = False"
  "cell_state (comm_region sample_guest) = 0"
  "data_pages sample_guest = 3"
  by (simp_all add: sample_root_def sample_guest_def)

lemma sample_env_simps [simp]:
  "comm_reads sample_env c = [(0, 0), (3, 0)]"
  "arch_result sample_env t ev = None"
  by (simp_all add: sample_env_def)

lemma sample_consts_simps [simp]:
  "JAILHOUSE_CELL_PASSIVE_COMMREG sample_consts = 1"
  "JAILHOUSE_MSG_NONE sample_consts = 0"
  "JAILHOUSE_MSG_SHUTDOWN_REQUEST sample_consts = 1"
  "JAILHOUSE_MSG_RECONFIG_COMPLETED sample_consts = 2"
  "JAILHOUSE_MSG_REQUEST_APPROVED sample_consts = 3"
  "JAILHOUSE_MSG_RECEIVED sample_consts = 4"
  "JAILHOUSE_CELL_RUNNING sample_consts = 0"
  "JAILHOUSE_CELL_RUNNING_LOCKED sample_consts = 1"
  "JAILHOUSE_CELL_SHUT_DOWN sample_consts = 2"
  "JAILHOUSE_CELL_FAILED sample_consts = 3"
  "JAILHOUSE_MEM_COMM_REGION sample_consts = 32"
  "JAILHOUSE_MEM_LOADABLE sample_consts = 64"
  by (simp_all add: sample_consts_def)

lemma sample_loadable_prologue:
  "cell_management_prologue sample_consts sample_env task 0 1 sample_loadable_state =
     Some (Inr 1, cell_suspend 1 0
       (jailhouse_send_msg_to_cell 1 1 (cell_suspend root_cell 0 sample_loadable_state)))"
  by (simp add: cell_management_prologue_def Let_def for_each_cell_def cell_reconfig_ok_iff
        cell_shutdown_ok_def cell_send_message_def root_cell_def)

lemma sample_prologue:
  "cell_management_prologue sample_consts sample_env task 0 1 sample_state =
     Some (Inr 1, cell_suspend 1 0
       (jailhouse_send_msg_to_cell 1 1 (cell_suspend root_cell 0 sample_state)))"
  by (simp add: cell_management_prologue_def Let_def for_each_cell_def cell_reconfig_ok_iff
        cell_shutdown_ok_def cell_send_message_def root_cell_def)


section \<open>cell_set_loadable\<close>

text \<open>
  C4. When the prologue of \<open>cell_set_loadable\<close> succeeds for a cell whose
  \<open>loadable\<close> flag is already set, the call returns 0 and its calls are exactly: the
  suspends of the root cell's and of the cell's CPUs, the parking of the cell's CPUs and
  the resumes of the root cell's CPUs. No region is mapped or unmapped and nothing is
  committed; the cell's state in the communication page, its \<open>loadable\<close> flag and
  its configuration are as before the call.
\<close>

theorem cell_set_loadable_idempotent:
  assumes "cell_management_prologue K E CELL_SET_LOADABLE cpu_data ident s = Some (Inr c, s1)"
    and "loadable (cells s c)"
  shows "\<exists>s'. cell_set_loadable K E cpu_data ident s = Some (None, s') \<and>
           trace s' = trace s @
             map Arch_suspend_cpu
               (for_each_cpu_except (cpu_set (cells s root_cell)) (of_nat cpu_data)) @
             map Arch_suspend_cpu (for_each_cpu_except (cpu_set (cells s c)) (of_nat cpu_data)) @
             map Arch_park_cpu (for_each_cpu (cpu_set (cells s c))) @
             map Arch_resume_cpu
               (for_each_cpu_except (cpu_set (cells s root_cell)) (of_nat cpu_data)) \<and>
           cell_state (comm_region (cells s' c)) = cell_state (comm_region (cells s c)) \<and>
           loadable (cells s' c) \<and>
           config (cells s' c) = config (cells s c) \<and>
           cell_list s' = cell_list s \<and> num_cells s' = num_cells s"
proof -
  from prologue_success[OF assms(1)] obtain s0 where
    root: "cpu_cell (per_cpu s cpu_data) = root_cell" and sb: "same_but_msg s s0"
    and s1: "s1 = s0\<lparr>trace := trace s @
                   map Arch_suspend_cpu
                     (for_each_cpu_except (cpu_set (cells s root_cell)) (of_nat cpu_data)) @
                   map Arch_suspend_cpu
                     (for_each_cpu_except (cpu_set (cells s c)) (of_nat cpu_data))\<rparr>"
    by blast
  note f = same_but_msg_fields[OF sb]
  have c1: "cells s1 = cells s0" "per_cpu s1 = per_cpu s" "cell_list s1 = cell_list s"
    "num_cells s1 = num_cells s"
    unfolding s1 using f by simp_all
  let ?s2 = "fold cell_set_loadable_cpu (for_each_cpu (cpu_set (cells s1 c))) s1"
  have l2: "loadable (cells ?s2 c)"
    using assms(2) f(5)[of c] by (simp add: fold_cell_set_loadable_cpu c1)
  have res: "cell_set_loadable K E cpu_data ident s = Some (None, cell_resume cpu_data ?s2)"
    using assms(1) l2 by (simp add: cell_set_loadable_def Let_def)
  have cc: "cpu_cell (per_cpu ?s2 cpu_data) = root_cell"
    using root by (simp add: fold_cell_set_loadable_cpu c1)
  show ?thesis
    apply (rule exI[of _ "cell_resume cpu_data ?s2"])
    apply (simp add: res)
    apply (simp add: cell_resume_eq cc)
    apply (simp add: fold_cell_set_loadable_cpu c1 f assms(2))
    apply (simp add: s1)
    done
qed



theorem cell_set_loadable_idempotent_witness:
  "cell_management_prologue sample_consts sample_env CELL_SET_LOADABLE 0 1 sample_loadable_state =
     Some (Inr 1, cell_suspend 1 0
       (jailhouse_send_msg_to_cell 1 1 (cell_suspend root_cell 0 sample_loadable_state))) \<and>
   loadable (cells sample_loadable_state 1) \<and>
   (\<exists>s'. cell_set_loadable sample_consts sample_env 0 1 sample_loadable_state = Some (None, s') \<and>
      trace s' = [Arch_suspend_cpu 1, Arch_suspend_cpu 2, Arch_park_cpu 2, Arch_resume_cpu 1] \<and>
      cell_state (comm_region (cells s' 1)) = 0 \<and> loadable (cells s' 1))"
  using cell_set_loadable_idempotent [OF sample_loadable_prologue [of CELL_SET_LOADABLE]] sample_loadable_prologue [of CELL_SET_LOADABLE]
  by (auto simp: root_cell_def)


text \<open>
  C10. Whenever the prologue of \<open>cell_set_loadable\<close> succeeds, the call returns, and
  right after the prologue it has parked every CPU of the cell; the \<open>failed\<close> flag of
  each of these CPUs is false when it returns. This holds whether or not the cell is
  already loadable.
\<close>

theorem cell_set_loadable_parks:
  assumes "cell_management_prologue K E CELL_SET_LOADABLE cpu_data ident s = Some (Inr c, s1)"
  shows "\<exists>r s' rest. cell_set_loadable K E cpu_data ident s = Some (r, s') \<and>
           trace s' = trace s1 @ map Arch_park_cpu (for_each_cpu (cpu_set (cells s c))) @ rest \<and>
           (\<forall>cpu \<in> set (for_each_cpu (cpu_set (cells s c))). \<not> failed (per_cpu s' cpu))"
proof -
  from cell_set_loadable_after_prologue[OF assms] obtain r s' new where
    "cell_set_loadable K E cpu_data ident s = Some (r, s')"
    "trace s' = trace s1 @ map Arch_park_cpu (for_each_cpu (cpu_set (cells s c))) @ new @
             map Arch_resume_cpu
               (for_each_cpu_except (cpu_set (cells s root_cell)) (of_nat cpu_data))"
    "per_cpu s' = (\<lambda>cpu. if cpu \<in> set (for_each_cpu (cpu_set (cells s c)))
                                then (per_cpu s cpu)\<lparr>failed := False\<rparr> else per_cpu s cpu)"
    by blast
  then show ?thesis
    by (intro exI[of _ r] exI[of _ s']) auto
qed



theorem cell_set_loadable_parks_witness:
  "cell_management_prologue sample_consts sample_env CELL_SET_LOADABLE 0 1 sample_state =
     Some (Inr 1, cell_suspend 1 0
       (jailhouse_send_msg_to_cell 1 1 (cell_suspend root_cell 0 sample_state))) \<and>
   (\<exists>r s' rest. cell_set_loadable sample_consts sample_env 0 1 sample_state = Some (r, s') \<and>
      trace s' = [Arch_suspend_cpu 1, Arch_suspend_cpu 2, Arch_park_cpu 2] @ rest \<and>
      \<not> failed (per_cpu s' 2))"
  using cell_set_loadable_parks [OF sample_prologue [of CELL_SET_LOADABLE]] sample_prologue [of CELL_SET_LOADABLE]
  by (simp add: root_cell_def cell_suspend_eq)

section \<open>cell_destroy\<close>

lemma cell_answers_same:
  "same_but_msg s s' \<Longrightarrow> cell_answers K E s' c = cell_answers K E s c"
  by (simp add: cell_answers_def same_but_msg_fields)

lemma cell_send_message_answers:
  "cell_answers K E s c \<Longrightarrow>
     \<exists>b s'. cell_send_message K E c m MSG_INFORMATION s = Some (b, s')"
  by (auto simp: cell_answers_def cell_send_message_def Let_def)

lemma cell_reconfig_completed_loop_returns:
  "\<forall>c \<in> set cs. cell_answers K E s c \<Longrightarrow>
     \<exists>s'. cell_reconfig_completed_loop K E cs s = Some s'"
proof (induction cs arbitrary: s)
  case Nil
  then show ?case by simp
next
  case (Cons c cs)
  have "cell_answers K E s c" using Cons.prems by simp
  from cell_send_message_answers[OF this, of "JAILHOUSE_MSG_RECONFIG_COMPLETED K"]
  obtain b s1 where
    1: "cell_send_message K E c (JAILHOUSE_MSG_RECONFIG_COMPLETED K) MSG_INFORMATION s = Some (b, s1)"
    by blast
  have "\<forall>c \<in> set cs. cell_answers K E s1 c"
    using Cons.prems cell_answers_same[OF cell_send_message_same[OF 1]] by simp
  from Cons.IH[OF this] show ?case
    using 1 by simp
qed

lemma fold_cell_destroy_internal_cpu:
  "fold cell_destroy_internal_cpu xs s =
     s\<lparr>cells := (cells s)(root_cell := (cells s root_cell)
          \<lparr>cpu_set := (cpu_set (cells s root_cell))
             \<lparr>bitmap := bitmap (cpu_set (cells s root_cell)) \<union> set xs\<rparr>\<rparr>),
       per_cpu := (\<lambda>cpu. if cpu \<in> set xs
                          then (per_cpu s cpu)\<lparr>cpu_cell := root_cell, failed := False,
                                               stats := (\<lambda>n. 0)\<rparr>
                          else per_cpu s cpu),
       trace := trace s @ map Arch_park_cpu xs\<rparr>"
proof (induction xs arbitrary: s)
  case Nil
  then show ?case by simp
next
  case (Cons x xs)
  define s1 where "s1 = cell_destroy_internal_cpu x s"
  have s1: "s1 = s\<lparr>cells := (cells s)(root_cell := (cells s root_cell)
          \<lparr>cpu_set := (cpu_set (cells s root_cell))
             \<lparr>bitmap := insert x (bitmap (cpu_set (cells s root_cell)))\<rparr>\<rparr>),
       per_cpu := (per_cpu s)(x := (per_cpu s x)\<lparr>cpu_cell := root_cell, failed := False,
                                               stats := (\<lambda>n. 0)\<rparr>),
       trace := trace s @ [Arch_park_cpu x]\<rparr>"
    unfolding s1_def
    by (simp add: cell_destroy_internal_cpu_def Let_def arch_park_cpu_def call_def set_bit_def)
  have pc: "(\<lambda>cpu. if cpu \<in> set xs
              then (per_cpu s1 cpu)\<lparr>cpu_cell := root_cell, failed := False, stats := (\<lambda>n. 0)\<rparr>
              else per_cpu s1 cpu) =
        (\<lambda>cpu. if cpu \<in> set (x # xs)
              then (per_cpu s cpu)\<lparr>cpu_cell := root_cell, failed := False, stats := (\<lambda>n. 0)\<rparr>
              else per_cpu s cpu)"
    by (rule ext) (simp add: s1)
  have "fold cell_destroy_internal_cpu (x # xs) s = fold cell_destroy_internal_cpu xs s1"
    by (simp add: s1_def)
  also have "\<dots> = s1\<lparr>cells := (cells s1)(root_cell := (cells s1 root_cell)
          \<lparr>cpu_set := (cpu_set (cells s1 root_cell))
             \<lparr>bitmap := bitmap (cpu_set (cells s1 root_cell)) \<union> set xs\<rparr>\<rparr>),
       per_cpu := (\<lambda>cpu. if cpu \<in> set xs
                          then (per_cpu s1 cpu)\<lparr>cpu_cell := root_cell, failed := False,
                                               stats := (\<lambda>n. 0)\<rparr>
                          else per_cpu s1 cpu),
       trace := trace s1 @ map Arch_park_cpu xs\<rparr>"
    by (rule Cons.IH)
  also have "\<dots> = s\<lparr>cells := (cells s)(root_cell := (cells s root_cell)
          \<lparr>cpu_set := (cpu_set (cells s root_cell))
             \<lparr>bitmap := bitmap (cpu_set (cells s root_cell)) \<union> set (x # xs)\<rparr>\<rparr>),
       per_cpu := (\<lambda>cpu. if cpu \<in> set (x # xs)
                          then (per_cpu s cpu)\<lparr>cpu_cell := root_cell, failed := False,
                                               stats := (\<lambda>n. 0)\<rparr>
                          else per_cpu s cpu),
       trace := trace s @ map Arch_park_cpu (x # xs)\<rparr>"
    unfolding pc by (simp add: s1)
  finally show ?case .
qed

lemma cell_destroy_internal_mem_quiet:
  "appends_quietly s (cell_destroy_internal_mem K E c mem s)"
proof -
  let ?s1 = "snd (arch_unmap_memory_region E c mem s)"
  have q1: "appends_quietly s ?s1"
    unfolding arch_unmap_memory_region_def by (rule appends_quietly_status) simp
  have q2: "appends_quietly ?s1 (snd (remap_to_root_cell E mem WARN_ON_ERROR ?s1))"
    by (rule remap_to_root_cell_quiet)
  show ?thesis
    using q1 appends_quietly_trans[OF q1 q2]
    by (simp add: cell_destroy_internal_mem_def Let_def)
qed

lemma fold_cell_destroy_internal_mem_quiet:
  "appends_quietly s (fold (cell_destroy_internal_mem K E c) ms s)"
proof (induction ms arbitrary: s)
  case Nil
  then show ?case by simp
next
  case (Cons m ms)
  show ?case
    using appends_quietly_trans[OF cell_destroy_internal_mem_quiet[of s K E c m]
        Cons[of "cell_destroy_internal_mem K E c m s"]]
    by simp
qed

lemma suspends_resumes_append [simp]:
  "suspends_resumes (a @ b) = suspends_resumes a @ suspends_resumes b"
  by (simp add: suspends_resumes_def)

lemma suspends_resumes_simps [simp]:
  "suspends_resumes [] = []"
  "suspends_resumes (map Arch_suspend_cpu xs) = map Arch_suspend_cpu xs"
  "suspends_resumes (map Arch_resume_cpu xs) = map Arch_resume_cpu xs"
  "suspends_resumes (map Arch_park_cpu xs) = []"
  "suspends_resumes (map Arch_reset_cpu xs) = []"
  by (induction xs) (simp_all add: suspends_resumes_def)

lemma cell_destroy_internal_eq:
  "\<exists>new. cell_destroy_internal K E cpu_data c s =
     s\<lparr>cells := (cells s)(root_cell := (cells s root_cell)
          \<lparr>cpu_set := (cpu_set (cells s root_cell))
             \<lparr>bitmap := bitmap (cpu_set (cells s root_cell)) \<union>
                         set (for_each_cpu (cpu_set (cells s c)))\<rparr>\<rparr>),
       per_cpu := (\<lambda>cpu. if cpu \<in> set (for_each_cpu (cpu_set (cells s c)))
                          then (per_cpu s cpu)\<lparr>cpu_cell := root_cell, failed := False,
                                               stats := (\<lambda>n. 0)\<rparr>
                          else per_cpu s cpu),
       trace := trace s @ new\<rparr> \<and> suspends_resumes new = []"
proof -
  define s1 where "s1 = fold cell_destroy_internal_cpu (for_each_cpu (cpu_set (cells s c))) s"
  define ms where "ms = jailhouse_cell_mem_regions (config (cells s1 c))"
  from fold_cell_destroy_internal_mem_quiet[of s1 K E c ms]
  obtain new where s2: "fold (cell_destroy_internal_mem K E c) ms s1 = s1\<lparr>trace := trace s1 @ new\<rparr>"
    and q: "suspends_resumes new = []"
    by (auto elim: appends_quietlyD)
  have "cell_destroy_internal K E cpu_data c s =
          arch_config_commit (Some c) (arch_cell_destroy c (s1\<lparr>trace := trace s1 @ new\<rparr>))"
    by (simp add: cell_destroy_internal_def Let_def s1_def[symmetric] ms_def[symmetric] s2)
  then show ?thesis
    apply (intro exI[of _ "map Arch_park_cpu (for_each_cpu (cpu_set (cells s c))) @ new @
               [Arch_cell_destroy c, Arch_config_commit (Some c)]"])
    using q
    by (simp add: s1_def fold_cell_destroy_internal_cpu arch_config_commit_def
          arch_cell_destroy_def call_def suspends_resumes_def)
qed


lemma cell_destroy_after_prologue:
  assumes "cell_management_prologue K E CELL_DESTROY cpu_data ident s = Some (Inr c, s1)"
  shows "\<exists>s6 new.
     cell_destroy K E cpu_data ident s =
       (case cell_reconfig_completed K E s6 of
          None \<Rightarrow> None
        | Some s7 \<Rightarrow> Some (None, cell_resume cpu_data s7)) \<and>
     trace s6 = trace s1 @ new \<and> suspends_resumes new = [] \<and>
     Page_free c (data_pages (cells s c)) \<in> set new \<and>
     cell_list s6 = remove1 c (cell_list s) \<and> num_cells s6 = num_cells s - 1 \<and>
     cpu_set (cells s6 root_cell) =
       (cpu_set (cells s root_cell))
         \<lparr>bitmap := bitmap (cpu_set (cells s root_cell)) \<union>
                     set (for_each_cpu (cpu_set (cells s c)))\<rparr> \<and>
     cpu_cell (per_cpu s6 cpu_data) = root_cell \<and>
     (\<forall>p. config (cells s6 p) = config (cells s p)) \<and>
     (\<forall>p. cell_id (cells s6 p) = cell_id (cells s p))"
proof -
  from prologue_success[OF assms(1)] obtain s0 where
    root: "cpu_cell (per_cpu s cpu_data) = root_cell" and nr: "c \<noteq> root_cell"
    and sb: "same_but_msg s s0"
    and s1: "s1 = s0\<lparr>trace := trace s @
                   map Arch_suspend_cpu
                     (for_each_cpu_except (cpu_set (cells s root_cell)) (of_nat cpu_data)) @
                   map Arch_suspend_cpu
                     (for_each_cpu_except (cpu_set (cells s c)) (of_nat cpu_data))\<rparr>"
    by blast
  note f = same_but_msg_fields[OF sb]
  have c1: "cells s1 = cells s0" "per_cpu s1 = per_cpu s" "cell_list s1 = cell_list s"
    "num_cells s1 = num_cells s"
    unfolding s1 using f by simp_all
  define s2 where "s2 = printk (Closing_cell (name (config (cells s1 c)))) s1"
  have s2: "cells s2 = cells s0" "per_cpu s2 = per_cpu s" "cell_list s2 = cell_list s"
    "num_cells s2 = num_cells s"
    "trace s2 = trace s1 @ [Printk (Closing_cell (name (config (cells s1 c))))]"
    unfolding s2_def printk_def using c1 by simp_all
  define s3 where "s3 = cell_destroy_internal K E cpu_data c s2"
  from cell_destroy_internal_eq[of K E cpu_data c s2] obtain new3 where
    s3: "s3 = s2\<lparr>cells := (cells s2)(root_cell := (cells s2 root_cell)
          \<lparr>cpu_set := (cpu_set (cells s2 root_cell))
             \<lparr>bitmap := bitmap (cpu_set (cells s2 root_cell)) \<union>
                         set (for_each_cpu (cpu_set (cells s2 c)))\<rparr>\<rparr>),
       per_cpu := (\<lambda>cpu. if cpu \<in> set (for_each_cpu (cpu_set (cells s2 c)))
                          then (per_cpu s2 cpu)\<lparr>cpu_cell := root_cell, failed := False,
                                               stats := (\<lambda>n. 0)\<rparr>
                          else per_cpu s2 cpu),
       trace := trace s2 @ new3\<rparr>" and q3: "suspends_resumes new3 = []"
    unfolding s3_def by blast
  define s6 where "s6 = page_map_dump_stats After_cell_destruction
      (page_free c (data_pages (cells s3 c))
        (s3\<lparr>cell_list := remove1 c (cell_list s3), num_cells := num_cells s3 - 1\<rparr>))"
  have eq: "cell_destroy K E cpu_data ident s =
       (case cell_reconfig_completed K E s6 of
          None \<Rightarrow> None
        | Some s7 \<Rightarrow> Some (None, cell_resume cpu_data s7))"
    using assms by (simp add: cell_destroy_def Let_def s6_def s3_def s2_def)
  have dp: "data_pages (cells s3 c) = data_pages (cells s c)"
    using nr by (simp add: s3 s2 f)
  have tr: "trace s6 = trace s1 @ ([Printk (Closing_cell (name (config (cells s1 c))))] @ new3 @
      [Page_free c (data_pages (cells s c)), Page_map_dump_stats After_cell_destruction])"
    unfolding s6_def page_map_dump_stats_def page_free_def dp by (simp add: s3 s2)
  have cfg: "config (cells s6 p) = config (cells s p)" for p
    by (simp add: s6_def page_map_dump_stats_def page_free_def s3 s2 f)
  have ids: "cell_id (cells s6 p) = cell_id (cells s p)" for p
    by (simp add: s6_def page_map_dump_stats_def page_free_def s3 s2 f)
  have rootset: "cpu_set (cells s6 root_cell) =
       (cpu_set (cells s root_cell))
         \<lparr>bitmap := bitmap (cpu_set (cells s root_cell)) \<union>
                     set (for_each_cpu (cpu_set (cells s c)))\<rparr>"
    by (simp add: s6_def page_map_dump_stats_def page_free_def s3 s2 f)
  have cc: "cpu_cell (per_cpu s6 cpu_data) = root_cell"
    using root by (simp add: s6_def page_map_dump_stats_def page_free_def s3 s2 f)
  have l: "cell_list s6 = remove1 c (cell_list s)" "num_cells s6 = num_cells s - 1"
    by (simp_all add: s6_def page_map_dump_stats_def page_free_def s3 s2)
  show ?thesis
    apply (rule exI[of _ s6])
    apply (rule exI[of _ "[Printk (Closing_cell (name (config (cells s1 c))))] @ new3 @
      [Page_free c (data_pages (cells s c)), Page_map_dump_stats After_cell_destruction]"])
    using eq tr q3 cfg ids rootset cc l by (simp add: suspends_resumes_def)
qed

lemma sample_two_cells_state_simps [simp]:
  "cell_list sample_two_cells_state = [1, 2]"
  "cells sample_two_cells_state 0 = sample_root"
  "cells sample_two_cells_state (Suc 0) = sample_guest"
  "cells sample_two_cells_state 2 = sample_second_guest"
  "cpu_cell (per_cpu sample_two_cells_state 0) = 0"
  "trace sample_two_cells_state = []"
  "num_cells sample_two_cells_state = 3"
  by (simp_all add: sample_two_cells_state_def sample_state_def)

lemma sample_second_guest_simps [simp]:
  "cell_id sample_second_guest = 2"
  "cpu_set sample_second_guest = \<lparr>max_cpu_id = 3, bitmap = {3}\<rparr>"
  "flags_desc (config sample_second_guest) = 0"
  "cell_state (comm_region sample_second_guest) = 0"
  by (simp_all add: sample_second_guest_def sample_guest_def)

lemma sample_failing_env_simps [simp]:
  "comm_reads sample_failing_env c = [(0, 0), (3, 0)]"
  "arch_result sample_failing_env t ev = Some ENOMEM"
  by (simp_all add: sample_failing_env_def sample_env_def)

lemma sample_two_cells_prologue:
  "comm_reads E 1 = [(0, 0), (3, 0)] \<Longrightarrow>
   cell_management_prologue sample_consts E task 0 1 sample_two_cells_state =
     Some (Inr 1, cell_suspend 1 0
       (jailhouse_send_msg_to_cell 1 1 (cell_suspend root_cell 0 sample_two_cells_state)))"
  by (simp add: cell_management_prologue_def Let_def for_each_cell_def cell_reconfig_ok_iff
        cell_shutdown_ok_def cell_send_message_def root_cell_def)


lemma remap_loop_warn_trace:
  "snd (remap_to_root_cell_loop E mem WARN_ON_ERROR rs err s) =
     s\<lparr>trace := trace s @ remap_warn_calls E (trace s) mem rs\<rparr>"
proof (induction rs arbitrary: err s)
  case Nil
  then show ?case by simp
next
  case (Cons r rs)
  show ?case
  proof (cases "remap_overlap mem r")
    case None
    then show ?thesis using Cons[of err s] by simp
  next
    case (Some ov)
    let ?ev = "Arch_map_memory_region root_cell ov"
    show ?thesis
    proof (cases "arch_result E (trace s) ?ev")
      case None
      then show ?thesis
        using Cons[of None "call ?ev s"] Some
        by (simp add: arch_map_memory_region_def call_status_def call_def)
    next
      case (Some e)
      then show ?thesis
        using Cons[of "Some e" "printk Warning_failed_to_reassign (call ?ev s)"]
          \<open>remap_overlap mem r = Some ov\<close>
        by (simp add: arch_map_memory_region_def call_status_def call_def printk_def)
    qed
  qed
qed

lemma fold_cell_destroy_internal_mem_trace:
  "fold (cell_destroy_internal_mem K E c) ms s =
     s\<lparr>trace := trace s @
          teardown_calls K E (trace s) c
            (jailhouse_cell_mem_regions (config (cells s root_cell))) ms\<rparr>"
proof (induction ms arbitrary: s)
  case Nil
  then show ?case by simp
next
  case (Cons m ms)
  let ?roots = "jailhouse_cell_mem_regions (config (cells s root_cell))"
  let ?now = "Arch_unmap_memory_region c m #
                (if flags m AND JAILHOUSE_MEM_COMM_REGION K = 0
                 then remap_warn_calls E (trace s @ [Arch_unmap_memory_region c m]) m ?roots
                 else [])"
  have step: "cell_destroy_internal_mem K E c m s = s\<lparr>trace := trace s @ ?now\<rparr>"
    by (simp add: cell_destroy_internal_mem_def Let_def arch_unmap_memory_region_def
          remap_to_root_cell_def remap_loop_warn_trace call_def)
  show ?case
    using Cons[of "s\<lparr>trace := trace s @ ?now\<rparr>"]
    by (simp add: step Let_def)
qed

lemma cell_destroy_internal_exact:
  "cell_destroy_internal K E cpu_data c s =
     s\<lparr>cells := (cells s)(root_cell := (cells s root_cell)
          \<lparr>cpu_set := (cpu_set (cells s root_cell))
             \<lparr>bitmap := bitmap (cpu_set (cells s root_cell)) \<union>
                         set (for_each_cpu (cpu_set (cells s c)))\<rparr>\<rparr>),
       per_cpu := (\<lambda>cpu. if cpu \<in> set (for_each_cpu (cpu_set (cells s c)))
                          then (per_cpu s cpu)\<lparr>cpu_cell := root_cell, failed := False,
                                               stats := (\<lambda>n. 0)\<rparr>
                          else per_cpu s cpu),
       trace := trace s @ map Arch_park_cpu (for_each_cpu (cpu_set (cells s c))) @
          teardown_calls K E (trace s @ map Arch_park_cpu (for_each_cpu (cpu_set (cells s c)))) c
            (jailhouse_cell_mem_regions (config (cells s root_cell)))
            (jailhouse_cell_mem_regions (config (cells s c))) @
          [Arch_cell_destroy c, Arch_config_commit (Some c)]\<rparr>"
  by (simp add: cell_destroy_internal_def Let_def fold_cell_destroy_internal_cpu
        fold_cell_destroy_internal_mem_trace arch_config_commit_def arch_cell_destroy_def call_def)

lemma cell_destroy_run:
  assumes "cell_management_prologue K E CELL_DESTROY cpu_data ident s = Some (Inr c, s1)"
  shows "\<exists>s6.
     cell_destroy K E cpu_data ident s =
       (case cell_reconfig_completed K E s6 of
          None \<Rightarrow> None
        | Some s7 \<Rightarrow> Some (None, cell_resume cpu_data s7)) \<and>
     trace s6 = trace s1 @ destroy_calls K E (trace s1) c s \<and>
     cell_list s6 = remove1 c (cell_list s) \<and> num_cells s6 = num_cells s - 1 \<and>
     cpu_cell (per_cpu s6 cpu_data) = root_cell \<and>
     (\<forall>p. config (cells s6 p) = config (cells s p))"
proof -
  from prologue_success[OF assms(1)] obtain s0 where
    root: "cpu_cell (per_cpu s cpu_data) = root_cell" and nr: "c \<noteq> root_cell"
    and sb: "same_but_msg s s0"
    and s1: "s1 = s0\<lparr>trace := trace s @
                   map Arch_suspend_cpu
                     (for_each_cpu_except (cpu_set (cells s root_cell)) (of_nat cpu_data)) @
                   map Arch_suspend_cpu
                     (for_each_cpu_except (cpu_set (cells s c)) (of_nat cpu_data))\<rparr>"
    by blast
  note f = same_but_msg_fields[OF sb]
  have c1: "cells s1 = cells s0" "per_cpu s1 = per_cpu s" "cell_list s1 = cell_list s"
    "num_cells s1 = num_cells s"
    unfolding s1 using f by simp_all
  define s2 where "s2 = printk (Closing_cell (name (config (cells s1 c)))) s1"
  have s2: "cells s2 = cells s0" "per_cpu s2 = per_cpu s" "cell_list s2 = cell_list s"
    "num_cells s2 = num_cells s"
    "trace s2 = trace s1 @ [Printk (Closing_cell (name (config (cells s c))))]"
    unfolding s2_def printk_def using c1 f by simp_all
  define s3 where "s3 = cell_destroy_internal K E cpu_data c s2"
  note s3 = s3_def[unfolded cell_destroy_internal_exact]
  define s6 where "s6 = page_map_dump_stats After_cell_destruction
      (page_free c (data_pages (cells s3 c))
        (s3\<lparr>cell_list := remove1 c (cell_list s3), num_cells := num_cells s3 - 1\<rparr>))"
  have eq: "cell_destroy K E cpu_data ident s =
       (case cell_reconfig_completed K E s6 of
          None \<Rightarrow> None
        | Some s7 \<Rightarrow> Some (None, cell_resume cpu_data s7))"
    using assms by (simp add: cell_destroy_def Let_def s6_def s3_def s2_def)
  have dp: "data_pages (cells s3 c) = data_pages (cells s c)"
    using nr by (simp add: s3 s2 f)
  have tr: "trace s6 = trace s1 @ destroy_calls K E (trace s1) c s"
    unfolding s6_def page_map_dump_stats_def page_free_def dp
    by (simp add: s3 s2 f destroy_calls_def)
  have cfg: "config (cells s6 p) = config (cells s p)" for p
    by (simp add: s6_def page_map_dump_stats_def page_free_def s3 s2 f)
  have cc: "cpu_cell (per_cpu s6 cpu_data) = root_cell"
    using root by (simp add: s6_def page_map_dump_stats_def page_free_def s3 s2 f)
  have l: "cell_list s6 = remove1 c (cell_list s)" "num_cells s6 = num_cells s - 1"
    by (simp_all add: s6_def page_map_dump_stats_def page_free_def s3 s2)
  show ?thesis
    apply (rule exI[of _ s6])
    using eq tr cfg cc l by simp
qed

lemma cell_send_message_returns_iff:
  "(\<exists>r. cell_send_message K E c m MSG_INFORMATION s = Some r) \<longleftrightarrow> cell_answers K E s c"
  by (auto simp: cell_answers_def cell_send_message_def Let_def split: option.splits)

lemma cell_reconfig_completed_loop_returns_iff:
  "(\<exists>s'. cell_reconfig_completed_loop K E cs s = Some s') \<longleftrightarrow>
     (\<forall>c \<in> set cs. cell_answers K E s c)"
proof (induction cs arbitrary: s)
  case Nil
  then show ?case by simp
next
  case (Cons c cs)
  show ?case
  proof (cases "cell_send_message K E c (JAILHOUSE_MSG_RECONFIG_COMPLETED K) MSG_INFORMATION s")
    case None
    with cell_send_message_returns_iff[of K E c "JAILHOUSE_MSG_RECONFIG_COMPLETED K" s]
    show ?thesis by simp
  next
    case (Some r)
    obtain b s1 where r: "r = (b, s1)" by (cases r)
    have a: "cell_answers K E s c"
      using cell_send_message_returns_iff[of K E c "JAILHOUSE_MSG_RECONFIG_COMPLETED K" s] Some
      by simp
    have same: "cell_answers K E s1 x = cell_answers K E s x" for x
      by (rule cell_answers_same[OF cell_send_message_same[OF Some[unfolded r]]])
    show ?thesis
      using Cons[of s1] a by (simp add: Some r same)
  qed
qed

lemma remap_warn_calls_map:
  "r \<in> set rs \<Longrightarrow> remap_overlap mem r = Some ov \<Longrightarrow>
     Arch_map_memory_region root_cell ov \<in> set (remap_warn_calls E t mem rs)"
  by (induction rs arbitrary: t) (auto simp: Let_def split: option.splits)

lemma teardown_calls_unmap:
  "mem \<in> set ms \<Longrightarrow> Arch_unmap_memory_region c mem \<in> set (teardown_calls K E t c roots ms)"
  by (induction ms arbitrary: t) (auto simp: Let_def)

lemma teardown_calls_map:
  "mem \<in> set ms \<Longrightarrow> flags mem AND JAILHOUSE_MEM_COMM_REGION K = 0 \<Longrightarrow> r \<in> set roots \<Longrightarrow>
     remap_overlap mem r = Some ov \<Longrightarrow>
     Arch_map_memory_region root_cell ov \<in> set (teardown_calls K E t c roots ms)"
proof (induction ms arbitrary: t)
  case Nil
  then show ?case by simp
next
  case (Cons m ms)
  show ?case
  proof (cases "mem = m")
    case True
    with Cons.prems remap_warn_calls_map[of r roots mem ov E "t @ [Arch_unmap_memory_region c m]"]
    show ?thesis by (simp add: Let_def)
  next
    case False
    with Cons.prems have "mem \<in> set ms" by simp
    from Cons.IH[OF this Cons.prems(2,3,4)] show ?thesis by (simp add: Let_def)
  qed
qed

lemma sample_silent_poll:
  "cell_send_message_poll sample_consts MSG_INFORMATION (replicate n (0, 0)) = None"
  by (induction n) simp_all

lemma sample_silent_env_simps [simp]:
  "comm_reads (sample_silent_env n) (Suc 0) = [(0, 0), (3, 0)]"
  "comm_reads (sample_silent_env n) 2 = replicate n (0, 0)"
  by (simp_all add: sample_silent_env_def)

text \<open>
  C9, as amended. Let the prologue succeed for \<open>CELL_DESTROY\<close>. Then
  \<open>cell_destroy\<close> returns exactly when every remaining non-root cell answers the
  \<open>RECONFIG_COMPLETED\<close> message (is passive, or a reply or a final state is read from
  it); the broadcast waits for a cell that does not. Whenever it returns, it returns 0,
  whatever the architecture calls return, the cell is out of the list and \<open>num_cells\<close>
  is one less, and its calls after the prologue are, in this order: the message of the
  log, the parking of the cell's CPUs, for every region of the cell the unmapping from
  the cell and, unless it is a communication region, the mapping of every overlap with a
  root region into the root cell, each failed mapping followed by the warning and by the
  next mapping, then \<open>arch_cell_destroy\<close>, \<open>arch_config_commit\<close>, \<open>page_free\<close> of
  the cell with its \<open>data_pages\<close>, the statistics and the resumes of the root cell's
  CPUs. So every region is unmapped and every overlap is mapped, whichever calls fail.
\<close>

theorem cell_destroy_drops_failures:
  assumes "cell_management_prologue K E CELL_DESTROY cpu_data ident s = Some (Inr c, s1)"
  shows "((\<exists>r s'. cell_destroy K E cpu_data ident s = Some (r, s')) \<longleftrightarrow>
            (\<forall>other \<in> set (remove1 c (cell_list s)). cell_answers K E s other)) \<and>
         (\<forall>r s'. cell_destroy K E cpu_data ident s = Some (r, s') \<longrightarrow>
            r = None \<and>
            cell_list s' = remove1 c (cell_list s) \<and> num_cells s' = num_cells s - 1 \<and>
            trace s' = trace s1 @ destroy_calls K E (trace s1) c s @
                       map Arch_resume_cpu (other_cpus s' root_cell cpu_data)) \<and>
         (\<forall>mem \<in> set (jailhouse_cell_mem_regions (config (cells s c))).
            Arch_unmap_memory_region c mem \<in> set (destroy_calls K E (trace s1) c s) \<and>
            (flags mem AND JAILHOUSE_MEM_COMM_REGION K = 0 \<longrightarrow>
               (\<forall>r \<in> set (jailhouse_cell_mem_regions (config (cells s root_cell))).
                  \<forall>overlap. remap_overlap mem r = Some overlap \<longrightarrow>
                    Arch_map_memory_region root_cell overlap \<in>
                      set (destroy_calls K E (trace s1) c s))))"
proof -
  from cell_destroy_run[OF assms] obtain s6 where
    eq: "cell_destroy K E cpu_data ident s =
       (case cell_reconfig_completed K E s6 of
          None \<Rightarrow> None
        | Some s7 \<Rightarrow> Some (None, cell_resume cpu_data s7))"
    and tr: "trace s6 = trace s1 @ destroy_calls K E (trace s1) c s"
    and l: "cell_list s6 = remove1 c (cell_list s)" "num_cells s6 = num_cells s - 1"
    and cc: "cpu_cell (per_cpu s6 cpu_data) = root_cell"
    and cfg: "\<forall>p. config (cells s6 p) = config (cells s p)"
    by blast
  have ans: "cell_answers K E s6 x = cell_answers K E s x" for x
    using cfg by (simp add: cell_answers_def)
  have returns: "(\<exists>r s'. cell_destroy K E cpu_data ident s = Some (r, s')) \<longleftrightarrow>
            (\<forall>other \<in> set (remove1 c (cell_list s)). cell_answers K E s other)"
    using cell_reconfig_completed_loop_returns_iff[of K E "for_each_non_root_cell s6" s6]
    by (auto simp: eq cell_reconfig_completed_def for_each_non_root_cell_def l ans
          split: option.splits)
  have result: "r = None \<and>
            cell_list s' = remove1 c (cell_list s) \<and> num_cells s' = num_cells s - 1 \<and>
            trace s' = trace s1 @ destroy_calls K E (trace s1) c s @
                       map Arch_resume_cpu (other_cpus s' root_cell cpu_data)"
    if "cell_destroy K E cpu_data ident s = Some (r, s')" for r s'
  proof -
    from that eq obtain s7 where s7: "cell_reconfig_completed K E s6 = Some s7"
      and r: "r = None" and s': "s' = cell_resume cpu_data s7"
      by (auto split: option.splits)
    note g = same_but_msg_fields[OF cell_reconfig_completed_same[OF s7]]
    show ?thesis
      using r l tr cc g by (simp add: s' cell_resume_eq other_cpus_def)
  qed
  have calls: "Arch_unmap_memory_region c mem \<in> set (destroy_calls K E (trace s1) c s) \<and>
            (flags mem AND JAILHOUSE_MEM_COMM_REGION K = 0 \<longrightarrow>
               (\<forall>r \<in> set (jailhouse_cell_mem_regions (config (cells s root_cell))).
                  \<forall>overlap. remap_overlap mem r = Some overlap \<longrightarrow>
                    Arch_map_memory_region root_cell overlap \<in>
                      set (destroy_calls K E (trace s1) c s)))"
    if "mem \<in> set (jailhouse_cell_mem_regions (config (cells s c)))" for mem
    using that teardown_calls_unmap[OF that] teardown_calls_map[OF that]
    by (simp add: destroy_calls_def Let_def)
  from returns result calls show ?thesis by blast
qed

theorem cell_destroy_drops_failures_witness:
  "cell_management_prologue sample_consts sample_failing_env CELL_DESTROY 0 1 sample_two_cells_state =
     Some (Inr 1, cell_suspend 1 0
       (jailhouse_send_msg_to_cell 1 1 (cell_suspend root_cell 0 sample_two_cells_state))) \<and>
   remove1 1 (cell_list sample_two_cells_state) = [2] \<and>
   cell_answers sample_consts sample_failing_env sample_two_cells_state 2 \<and>
   (\<exists>s'. cell_destroy sample_consts sample_failing_env 0 1 sample_two_cells_state = Some (None, s') \<and>
      cell_list s' = [2] \<and> num_cells s' = 2 \<and>
      trace s' =
        [Arch_suspend_cpu 1, Arch_suspend_cpu 2,
         Printk (Closing_cell ''guest''), Arch_park_cpu 2,
         Arch_unmap_memory_region 1
           \<lparr>phys_start = 0x1000, virt_start = 0, size_mem = 0x1000, flags = 71\<rparr>,
         Arch_map_memory_region root_cell
           \<lparr>phys_start = 0x1000, virt_start = 0x1000, size_mem = 0x1000, flags = 7\<rparr>,
         Printk Warning_failed_to_reassign,
         Arch_cell_destroy 1, Arch_config_commit (Some 1), Page_free 1 3,
         Page_map_dump_stats After_cell_destruction] @
        map Arch_resume_cpu (other_cpus s' root_cell 0))"
proof -
  let ?s1 = "cell_suspend 1 0
       (jailhouse_send_msg_to_cell 1 1 (cell_suspend root_cell 0 sample_two_cells_state))"
  have p: "cell_management_prologue sample_consts sample_failing_env CELL_DESTROY 0 1
             sample_two_cells_state = Some (Inr 1, ?s1)"
    by (rule sample_two_cells_prologue) simp
  have a: "\<forall>other \<in> set (remove1 1 (cell_list sample_two_cells_state)).
             cell_answers sample_consts sample_failing_env sample_two_cells_state other"
    by (simp add: cell_answers_def)
  have t1: "trace (cell_suspend (Suc 0) 0
       (jailhouse_send_msg_to_cell (Suc 0) 1 (cell_suspend root_cell 0 sample_two_cells_state))) =
       [Arch_suspend_cpu 1, Arch_suspend_cpu 2]"
    by (simp add: cell_suspend_eq root_cell_def)
  have calls: "destroy_calls sample_consts sample_failing_env t (Suc 0) sample_two_cells_state =
        [Printk (Closing_cell ''guest''), Arch_park_cpu 2,
         Arch_unmap_memory_region 1
           \<lparr>phys_start = 0x1000, virt_start = 0, size_mem = 0x1000, flags = 71\<rparr>,
         Arch_map_memory_region root_cell
           \<lparr>phys_start = 0x1000, virt_start = 0x1000, size_mem = 0x1000, flags = 7\<rparr>,
         Printk Warning_failed_to_reassign,
         Arch_cell_destroy 1, Arch_config_commit (Some 1), Page_free 1 3,
         Page_map_dump_stats After_cell_destruction]" for t
    by (simp add: destroy_calls_def Let_def sample_guest_def sample_root_def remap_overlap_def
          address_in_region_def root_cell_def)
  from cell_destroy_drops_failures[OF p] a obtain r s' where
    run: "cell_destroy sample_consts sample_failing_env 0 1 sample_two_cells_state = Some (r, s')"
    by blast
  with cell_destroy_drops_failures[OF p] have
    "r = None" "cell_list s' = [2]" "num_cells s' = 2"
    "trace s' = trace ?s1 @ destroy_calls sample_consts sample_failing_env (trace ?s1) 1
         sample_two_cells_state @ map Arch_resume_cpu (other_cpus s' root_cell 0)"
    by auto
  with run p a show ?thesis
    by (simp add: t1 calls cell_answers_def)
qed

text \<open>
  C9 as stated fails when a remaining cell does not answer: in the example the prologue
  succeeds for cell 1, and however often the empty reply of cell 2 has been read, the
  call has not returned.
\<close>

theorem cell_destroy_silent_cell_counterexample:
  "\<forall>n. cell_management_prologue sample_consts (sample_silent_env n) CELL_DESTROY 0 1
          sample_two_cells_state =
        Some (Inr 1, cell_suspend 1 0
          (jailhouse_send_msg_to_cell 1 1 (cell_suspend root_cell 0 sample_two_cells_state))) \<and>
      cell_destroy sample_consts (sample_silent_env n) 0 1 sample_two_cells_state = None"
proof
  fix n
  let ?E = "sample_silent_env n"
  have p: "cell_management_prologue sample_consts ?E CELL_DESTROY 0 1 sample_two_cells_state =
     Some (Inr 1, cell_suspend 1 0
       (jailhouse_send_msg_to_cell 1 1 (cell_suspend root_cell 0 sample_two_cells_state)))"
    by (rule sample_two_cells_prologue) simp
  from cell_destroy_run[OF p] obtain s6 where
    eq: "cell_destroy sample_consts ?E 0 1 sample_two_cells_state =
       (case cell_reconfig_completed sample_consts ?E s6 of
          None \<Rightarrow> None
        | Some s7 \<Rightarrow> Some (None, cell_resume 0 s7))"
    and l: "cell_list s6 = remove1 1 (cell_list sample_two_cells_state)"
    and cfg: "\<forall>p. config (cells s6 p) = config (cells sample_two_cells_state p)"
    by blast
  have "\<not> cell_answers sample_consts ?E s6 2"
    using cfg by (simp add: cell_answers_def sample_silent_poll)
  then have "cell_reconfig_completed sample_consts ?E s6 = None"
    using cell_reconfig_completed_loop_returns_iff[of sample_consts ?E "for_each_non_root_cell s6" s6]
    by (auto simp: cell_reconfig_completed_def for_each_non_root_cell_def l)
  with p eq show "cell_management_prologue sample_consts ?E CELL_DESTROY 0 1
          sample_two_cells_state =
        Some (Inr 1, cell_suspend 1 0
          (jailhouse_send_msg_to_cell 1 1 (cell_suspend root_cell 0 sample_two_cells_state))) \<and>
      cell_destroy sample_consts ?E 0 1 sample_two_cells_state = None"
    by simp
qed

section \<open>Error exits of the prologue, and cell_start\<close>

lemma prologue_error:
  assumes "cell_management_prologue K E task cpu_data ident s = Some (Inl e, s1)"
  shows "(cpu_cell (per_cpu s cpu_data) \<noteq> root_cell \<and> s1 = s) \<or>
         (cpu_cell (per_cpu s cpu_data) = root_cell \<and>
          (\<exists>s0. same_but_msg s s0 \<and>
             s1 = s0\<lparr>trace := trace s @
                    map Arch_suspend_cpu
                      (for_each_cpu_except (cpu_set (cells s root_cell)) (of_nat cpu_data)) @
                    map Arch_resume_cpu
                      (for_each_cpu_except (cpu_set (cells s root_cell)) (of_nat cpu_data))\<rparr>))"
proof (cases "cpu_cell (per_cpu s cpu_data) = root_cell")
  case False
  with assms show ?thesis
    by (simp add: cell_management_prologue_def)
next
  case True
  let ?sa = "cell_suspend root_cell cpu_data s"
  let ?R = "for_each_cpu_except (cpu_set (cells s root_cell)) (of_nat cpu_data)"
  have res: "cell_resume cpu_data s2 =
      (s2\<lparr>trace := trace s\<rparr>)\<lparr>trace := trace s @ map Arch_suspend_cpu ?R @ map Arch_resume_cpu ?R\<rparr>"
    if "same_but_msg ?sa s2" for s2
    using same_but_msg_fields[OF that] True
    by (simp add: cell_resume_eq cell_suspend_eq)
  have sb0: "same_but_msg s (s2\<lparr>trace := trace s\<rparr>)" if "same_but_msg ?sa s2" for s2
    using that unfolding same_but_msg_def by (simp add: cell_suspend_eq)
  from assms True have
    "\<exists>s2. s1 = cell_resume cpu_data s2 \<and>
       (s2 = ?sa \<or> (\<exists>c. cell_shutdown_ok K E c ?sa = Some (False, s2)))"
    by (fastforce simp: cell_management_prologue_def Let_def
          split: if_splits option.splits bool.splits)
  then obtain s2 where "same_but_msg ?sa s2" "s1 = cell_resume cpu_data s2"
    using cell_send_message_same unfolding cell_shutdown_ok_def
    by (metis same_but_msg_refl)
  with res[of s2] sb0[of s2] True show ?thesis by blast
qed

lemma fold_cell_start_cpu:
  "fold cell_start_cpu xs s =
     s\<lparr>per_cpu := (\<lambda>cpu. if cpu \<in> set xs then (per_cpu s cpu)\<lparr>failed := False\<rparr>
                          else per_cpu s cpu),
       trace := trace s @ map Arch_reset_cpu xs\<rparr>"
proof (induction xs arbitrary: s)
  case Nil
  then show ?case by simp
next
  case (Cons x xs)
  have "(\<lambda>cpu. if cpu \<in> set xs
              then (((per_cpu s)(x := (per_cpu s x)\<lparr>failed := False\<rparr>)) cpu)\<lparr>failed := False\<rparr>
              else ((per_cpu s)(x := (per_cpu s x)\<lparr>failed := False\<rparr>)) cpu) =
        (\<lambda>cpu. if cpu \<in> set (x # xs) then (per_cpu s cpu)\<lparr>failed := False\<rparr> else per_cpu s cpu)"
    by (rule ext) simp
  then have "(cell_start_cpu x s)
      \<lparr>per_cpu := (\<lambda>cpu. if cpu \<in> set xs
                          then (per_cpu (cell_start_cpu x s) cpu)\<lparr>failed := False\<rparr>
                          else per_cpu (cell_start_cpu x s) cpu),
       trace := trace (cell_start_cpu x s) @ map Arch_reset_cpu xs\<rparr> =
     s\<lparr>per_cpu := (\<lambda>cpu. if cpu \<in> set (x # xs) then (per_cpu s cpu)\<lparr>failed := False\<rparr>
                          else per_cpu s cpu),
       trace := trace s @ map Arch_reset_cpu (x # xs)\<rparr>"
    by (simp add: cell_start_cpu_def arch_reset_cpu_def call_def cong: if_cong)
  then show ?case
    using Cons.IH[of "cell_start_cpu x s"] by simp
qed

lemma cell_start_after_prologue:
  assumes "cell_management_prologue K E CELL_START cpu_data ident s = Some (Inr c, s1)"
  shows "\<exists>r s' new. cell_start K E cpu_data ident s = Some (r, s') \<and>
           trace s' = trace s1 @ new @
             map Arch_resume_cpu
               (for_each_cpu_except (cpu_set (cells s root_cell)) (of_nat cpu_data)) \<and>
           suspends_resumes new = [] \<and>
           cpu_set (cells s' root_cell) = cpu_set (cells s root_cell) \<and>
           cell_list s' = cell_list s \<and> num_cells s' = num_cells s \<and>
           (\<not> loadable (cells s c) \<longrightarrow> r = None)"
proof -
  from prologue_success[OF assms(1)] obtain s0 where
    root: "cpu_cell (per_cpu s cpu_data) = root_cell" and nr: "c \<noteq> root_cell"
    and sb: "same_but_msg s s0"
    and s1: "s1 = s0\<lparr>trace := trace s @
                   map Arch_suspend_cpu
                     (for_each_cpu_except (cpu_set (cells s root_cell)) (of_nat cpu_data)) @
                   map Arch_suspend_cpu
                     (for_each_cpu_except (cpu_set (cells s c)) (of_nat cpu_data))\<rparr>"
    by blast
  note f = same_but_msg_fields[OF sb]
  have c1: "cells s1 = cells s0" "per_cpu s1 = per_cpu s" "cell_list s1 = cell_list s"
    "num_cells s1 = num_cells s"
    unfolding s1 using f by simp_all
  let ?R = "for_each_cpu_except (cpu_set (cells s root_cell)) (of_nat cpu_data)"
  define first where "first =
    (if loadable (cells s1 c) then
       (case cell_start_unmap_loop K E (jailhouse_cell_mem_regions (config (cells s1 c))) s1 of
          (Some e, s2) \<Rightarrow> (Some e, s2)
        | (None, s2) \<Rightarrow>
            let s3 = arch_config_commit None s2
            in (None, s3\<lparr>cells := (cells s3)(c := (cells s3 c)\<lparr>loadable := False\<rparr>)\<rparr>))
     else (None, s1))"
  obtain e s4 where first: "first = (e, s4)" by (cases first)
  have "\<exists>new cs. s4 = s1\<lparr>cells := cs, trace := trace s1 @ new\<rparr> \<and> suspends_resumes new = [] \<and>
           cs root_cell = cells s1 root_cell \<and>
           cpu_set (cs c) = cpu_set (cells s1 c) \<and> config (cs c) = config (cells s1 c)"
  proof (cases "loadable (cells s1 c)")
    case False
    with first have "s4 = s1" by (simp add: first_def)
    then show ?thesis
      by (intro exI[of _ "[]"] exI[of _ "cells s1"]) simp
  next
    case True
    obtain e2 s2 where loop:
      "cell_start_unmap_loop K E (jailhouse_cell_mem_regions (config (cells s1 c))) s1 = (e2, s2)"
      by (cases "cell_start_unmap_loop K E (jailhouse_cell_mem_regions (config (cells s1 c))) s1")
    from cell_start_unmap_loop_quiet[of s1 K E "jailhouse_cell_mem_regions (config (cells s1 c))"]
    obtain new where s2: "s2 = s1\<lparr>trace := trace s1 @ new\<rparr>" and q: "suspends_resumes new = []"
      using loop by (auto elim: appends_quietlyD)
    show ?thesis
    proof (cases e2)
      case (Some err)
      with first True loop have "s4 = s2" by (simp add: first_def)
      then show ?thesis
        using s2 q by (intro exI[of _ new] exI[of _ "cells s1"]) simp
    next
      case None
      with first True loop have
        "s4 = (arch_config_commit None s2)\<lparr>cells := (cells (arch_config_commit None s2))
                 (c := (cells (arch_config_commit None s2) c)\<lparr>loadable := False\<rparr>)\<rparr>"
        by (simp add: first_def Let_def)
      then show ?thesis
        using s2 q nr
        by (intro exI[of _ "new @ [Arch_config_commit None]"]
                  exI[of _ "(cells s1)(c := (cells s1 c)\<lparr>loadable := False\<rparr>)"])
           (simp add: arch_config_commit_def call_def suspends_resumes_def)
    qed
  qed
  then obtain new cs where s4: "s4 = s1\<lparr>cells := cs, trace := trace s1 @ new\<rparr>"
    and q: "suspends_resumes new = []" and csr: "cs root_cell = cells s1 root_cell"
    and csc: "cpu_set (cs c) = cpu_set (cells s1 c)" "config (cs c) = config (cells s1 c)"
    by blast
  have unfold: "cell_start K E cpu_data ident s =
     (case first of
        (Some e, s4) \<Rightarrow> Some (Some e, cell_resume cpu_data s4)
      | (None, s4) \<Rightarrow>
          let s5 = s4\<lparr>cells := (cells s4)(c := (cells s4 c)\<lparr>comm_region :=
                     (comm_region (cells s4 c))
                       \<lparr>cell_state := JAILHOUSE_CELL_RUNNING K,
                        msg_to_cell := JAILHOUSE_MSG_NONE K\<rparr>\<rparr>)\<rparr>;
              s6 = fold cell_start_cpu (for_each_cpu (cpu_set (cells s5 c))) s5;
              s7 = printk (Started_cell (name (config (cells s6 c)))) s6
          in Some (None, cell_resume cpu_data s7))"
    using assms by (simp add: cell_start_def first_def)
  show ?thesis
  proof (cases e)
    case (Some err)
    then have res: "cell_start K E cpu_data ident s = Some (Some err, cell_resume cpu_data s4)"
      using unfold first by simp
    have ld: "loadable (cells s c)"
      using first Some f(5)[of c] by (auto simp: first_def c1 split: if_splits)
    show ?thesis
      apply (rule exI[of _ "Some err"], rule exI[of _ "cell_resume cpu_data s4"], rule exI[of _ new])
      using q root csr ld by (simp add: res cell_resume_eq s4 c1 f)
  next
    case None
    define s5 where "s5 = s4\<lparr>cells := (cells s4)(c := (cells s4 c)\<lparr>comm_region :=
                     (comm_region (cells s4 c))
                       \<lparr>cell_state := JAILHOUSE_CELL_RUNNING K,
                        msg_to_cell := JAILHOUSE_MSG_NONE K\<rparr>\<rparr>)\<rparr>"
    define s7 where "s7 = printk (Started_cell (name (config (cells
         (fold cell_start_cpu (for_each_cpu (cpu_set (cells s5 c))) s5) c))))
         (fold cell_start_cpu (for_each_cpu (cpu_set (cells s5 c))) s5)"
    have res: "cell_start K E cpu_data ident s = Some (None, cell_resume cpu_data s7)"
      using unfold first None by (simp add: Let_def s5_def s7_def)
    have t7: "trace s7 = trace s1 @ (new @ map Arch_reset_cpu (for_each_cpu (cpu_set (cells s5 c))) @
         [Printk (Started_cell (name (config (cells s5 c))))])"
      by (simp add: s7_def printk_def fold_cell_start_cpu s5_def s4)
    have r7: "cells s7 root_cell = cells s1 root_cell"
      using nr csr by (simp add: s7_def printk_def fold_cell_start_cpu s5_def s4)
    have cc: "cpu_cell (per_cpu s7 cpu_data) = root_cell"
      using root by (simp add: s7_def printk_def fold_cell_start_cpu s5_def s4 c1)
    have l7: "cell_list s7 = cell_list s" "num_cells s7 = num_cells s"
      by (simp_all add: s7_def printk_def fold_cell_start_cpu s5_def s4 c1)
    show ?thesis
      apply (rule exI[of _ None], rule exI[of _ "cell_resume cpu_data s7"],
             rule exI[of _ "new @ map Arch_reset_cpu (for_each_cpu (cpu_set (cells s5 c))) @
         [Printk (Started_cell (name (config (cells s5 c))))]"])
      using q cc r7 l7 t7 by (simp add: res cell_resume_eq c1 f suspends_resumes_def)
  qed
qed

section \<open>get_free_cell_id\<close>

lemma get_free_cell_id_retry_unfold:
  "get_free_cell_id_retry s i =
     (if id_in_use s i then get_free_cell_id_retry s (i + 1) else Some i)"
  unfolding id_in_use_def by (rule get_free_cell_id_retry.simps)

lemma get_free_cell_id_retry_run:
  assumes "\<not> id_in_use s f" and "i \<le> f"
  shows "\<exists>r. get_free_cell_id_retry s i = Some r \<and> i \<le> r \<and> r \<le> f \<and> \<not> id_in_use s r \<and>
           (\<forall>j. i \<le> j \<and> j < r \<longrightarrow> id_in_use s j)"
  using assms(2)
proof (induction "unat f - unat i" arbitrary: i rule: less_induct)
  case less
  show ?case
  proof (cases "id_in_use s i")
    case False
    then have "get_free_cell_id_retry s i = Some i"
      by (simp add: get_free_cell_id_retry_unfold[of s i])
    with False less.prems show ?thesis by auto
  next
    case True
    with assms(1) have "i \<noteq> f" by auto
    with less.prems have lt: "i < f" by simp
    then have i1: "i + 1 \<le> f" by (simp add: inc_le)
    have "unat f < 2 ^ 32" using unsigned_less[of f] by simp
    with lt have "unat i < 2 ^ 32 - 1" by (simp add: word_less_nat_alt)
    then have step: "unat (i + 1) = Suc (unat i)" by (rule unat_succ_u32)
    then have nz: "i < i + 1" by (simp add: word_less_nat_alt)
    have "unat f - unat (i + 1) < unat f - unat i"
      using lt step by (simp add: word_less_nat_alt)
    from less.hyps[OF this i1] obtain r where r:
      "get_free_cell_id_retry s (i + 1) = Some r" "i + 1 \<le> r" "r \<le> f" "\<not> id_in_use s r"
      "\<forall>j. i + 1 \<le> j \<and> j < r \<longrightarrow> id_in_use s j"
      by blast
    have eq: "get_free_cell_id_retry s i = Some r"
      using True r(1) by (simp add: get_free_cell_id_retry_unfold[of s i])
    have "id_in_use s j" if "i \<le> j" "j < r" for j
    proof (cases "j = i")
      case True
      with \<open>id_in_use s i\<close> show ?thesis by simp
    next
      case False
      with that have "i < j" by simp
      then have "i + 1 \<le> j" by (simp add: inc_le)
      with r(5) that show ?thesis by blast
    qed
    moreover have "i \<le> r" using nz r(2) by simp
    ultimately show ?thesis using eq r(3,4) by blast
  qed
qed

lemma free_id_exists:
  assumes "length (cell_list s) < 2 ^ 32 - 1"
  shows "\<exists>f. \<not> id_in_use s f"
proof -
  let ?ids = "map (\<lambda>c. cell_id (cells s c)) (for_each_cell s)"
  have "card (set ?ids) \<le> length ?ids" by (rule card_length)
  also have "\<dots> < 2 ^ 32" using assms by (simp add: for_each_cell_def)
  finally have "card (set ?ids) < CARD(u32)" by (simp add: card_word)
  then have "set ?ids \<noteq> UNIV" by auto
  then obtain f where "f \<notin> set ?ids" by blast
  then have "\<not> id_in_use s f" by (auto simp: id_in_use_def)
  then show ?thesis ..
qed

lemma get_free_cell_id_retry_cong:
  assumes "get_free_cell_id_retry s i = Some r"
    and "\<And>j. id_in_use s' j = id_in_use s j"
  shows "get_free_cell_id_retry s' i = Some r"
proof -
  have "s = s \<longrightarrow> get_free_cell_id_retry s' i = Some r"
  proof (rule get_free_cell_id_retry.raw_induct
      [where P = "\<lambda>s0 i0 r0. s0 = s \<longrightarrow> get_free_cell_id_retry s' i0 = Some r0",
       OF _ assms(1)])
    fix retry s0 i0 r0
    assume IH: "\<And>a b y. retry a b = Some y \<Longrightarrow>
                  a = s \<longrightarrow> get_free_cell_id_retry s' b = Some y"
      and eq: "(if \<exists>c \<in> set (for_each_cell s0). cell_id (cells s0 c) = i0
                then retry s0 (i0 + 1) else Some i0) = Some r0"
    show "s0 = s \<longrightarrow> get_free_cell_id_retry s' i0 = Some r0"
    proof
      assume s0: "s0 = s"
      show "get_free_cell_id_retry s' i0 = Some r0"
      proof (cases "id_in_use s i0")
        case True
        with eq s0 have "retry s (i0 + 1) = Some r0" by (simp add: id_in_use_def)
        from IH[OF this] have "get_free_cell_id_retry s' (i0 + 1) = Some r0" by simp
        with True assms(2) show ?thesis
          by (simp add: get_free_cell_id_retry_unfold[of s' i0])
      next
        case False
        with eq s0 have "r0 = i0" by (simp add: id_in_use_def)
        with False assms(2) show ?thesis
          by (simp add: get_free_cell_id_retry_unfold[of s' i0])
      qed
    qed
  qed
  then show ?thesis by simp
qed

lemma get_free_cell_id_cong:
  assumes "get_free_cell_id s = Some r"
    and "for_each_cell s' = for_each_cell s"
    and "\<And>c. c \<in> set (for_each_cell s) \<Longrightarrow> cell_id (cells s' c) = cell_id (cells s c)"
  shows "get_free_cell_id s' = Some r"
proof -
  have "id_in_use s' j = id_in_use s j" for j
    using assms(2,3) by (auto simp: id_in_use_def)
  with assms(1) show ?thesis
    unfolding get_free_cell_id_def by (rule get_free_cell_id_retry_cong)
qed

lemma get_free_cell_id_least:
  assumes "length (cell_list s) < 2 ^ 32 - 1"
  shows "\<exists>i. get_free_cell_id s = Some i \<and> \<not> id_in_use s i \<and> (\<forall>j < i. id_in_use s j)"
proof -
  from free_id_exists[OF assms] obtain f where "\<not> id_in_use s f" ..
  from get_free_cell_id_retry_run[OF this, of 0] show ?thesis
    unfolding get_free_cell_id_def by auto
qed

lemma id_in_use_cell_ids: "id_in_use s i \<longleftrightarrow> i \<in> set (cell_ids s)"
  by (auto simp: id_in_use_def cell_ids_def)

section \<open>cell_create\<close>

lemma page_free_quiet: "appends_quietly s (page_free p n s)"
  unfolding page_free_def by (rule appends_quietly_call) simp

lemma destroy_cpu_set_quiet: "appends_quietly s (destroy_cpu_set c s)"
  unfolding destroy_cpu_set_def by (simp add: page_free_quiet split: option.splits)

lemma page_alloc_quiet: "appends_quietly s (snd (page_alloc E n s))"
  unfolding page_alloc_def by (simp add: appends_quietly_call)

lemma page_map_get_guest_pages_quiet:
  "appends_quietly s (snd (page_map_get_guest_pages E a n s))"
  unfolding page_map_get_guest_pages_def by (simp add: appends_quietly_call)

lemma arch_cell_create_quiet: "appends_quietly s (snd (arch_cell_create E c s))"
  unfolding arch_cell_create_def by (rule appends_quietly_status) simp

lemma check_mem_regions_quiet: "appends_quietly s (snd (check_mem_regions K cfg s))"
proof -
  have "appends_quietly s (snd (check_mem_regions_loop K ms s))" for ms
    by (induction ms) (simp_all add: printk_def appends_quietly_call)
  then show ?thesis by (simp add: check_mem_regions_def)
qed

lemma cell_create_mem_loop_quiet:
  "appends_quietly s (snd (cell_create_mem_loop K E c ms s))"
proof (induction ms arbitrary: s)
  case Nil
  then show ?case by simp
next
  case (Cons m ms)
  define first where "first =
    (if flags m AND JAILHOUSE_MEM_COMM_REGION K = 0 then unmap_from_root_cell E m s else (None, s))"
  obtain e1 s1 where f: "first = (e1, s1)" by (cases first)
  have q1: "appends_quietly s s1"
    using f unmap_from_root_cell_quiet[of s E m]
    by (auto simp: first_def split: if_splits)
  obtain e2 s2 where m2: "arch_map_memory_region E c m s1 = (e2, s2)"
    by (cases "arch_map_memory_region E c m s1")
  have q2: "appends_quietly s1 s2"
    using m2 appends_quietly_status[of "Arch_map_memory_region c m" s1 E]
    by (simp add: arch_map_memory_region_def)
  have q12: "appends_quietly s s2" by (rule appends_quietly_trans[OF q1 q2])
  show ?case
    using f m2 q1 q12 appends_quietly_trans[OF q12 Cons[of s2]]
    by (auto simp: first_def[symmetric] split: option.splits)
qed

lemma cell_init_result:
  assumes "cell_init K E c s = Some (r, s')"
  shows "get_free_cell_id s = Some (cell_id (cells s' c)) \<and>
         (\<exists>new. trace s' = trace s @ new \<and> suspends_resumes new = []) \<and>
         cell_list s' = cell_list s \<and> per_cpu s' = per_cpu s \<and> num_cells s' = num_cells s \<and>
         (\<forall>p. p \<noteq> c \<longrightarrow> cells s' p = cells s p) \<and>
         config (cells s' c) = config (cells s c)"
proof -
  from assms obtain i where i: "get_free_cell_id s = Some i"
    by (auto simp: cell_init_def split: option.splits)
  define s1 where "s1 = s\<lparr>cells := (cells s)(c := (cells s c)\<lparr>cell_id := i\<rparr>)\<rparr>"
  have q: "appends_quietly s1 (snd (page_alloc E 1 s1))" by (rule page_alloc_quiet)
  then obtain new where pa: "snd (page_alloc E 1 s1) = s1\<lparr>trace := trace s1 @ new\<rparr>"
    and qn: "suspends_resumes new = []"
    by (auto elim: appends_quietlyD)
  from assms i have
    "s' = s1 \<or> s' = snd (page_alloc E 1 s1) \<or>
     (\<exists>cs pg. s' = s1\<lparr>cells := (cells s1)(c := (cells s1 c)\<lparr>cpu_set := cs, cpu_set_page := pg\<rparr>)\<rparr>) \<or>
     (\<exists>cs pg. s' = (snd (page_alloc E 1 s1))\<lparr>cells := (cells (snd (page_alloc E 1 s1)))
           (c := (cells (snd (page_alloc E 1 s1)) c)\<lparr>cpu_set := cs, cpu_set_page := pg\<rparr>)\<rparr>)"
    by (auto simp: cell_init_def Let_def s1_def split: if_splits option.splits prod.splits)
  then show ?thesis
  proof (elim disjE exE)
    assume "s' = s1"
    then show ?thesis
      using i by (auto simp: s1_def intro: exI[of _ "[]"])
  next
    assume "s' = snd (page_alloc E 1 s1)"
    then show ?thesis
      using i pa qn by (auto simp: s1_def)
  next
    fix cs pg
    assume "s' = s1\<lparr>cells := (cells s1)(c := (cells s1 c)\<lparr>cpu_set := cs, cpu_set_page := pg\<rparr>)\<rparr>"
    then show ?thesis
      using i by (auto simp: s1_def intro: exI[of _ "[]"])
  next
    fix cs pg
    assume "s' = (snd (page_alloc E 1 s1))\<lparr>cells := (cells (snd (page_alloc E 1 s1)))
           (c := (cells (snd (page_alloc E 1 s1)) c)\<lparr>cpu_set := cs, cpu_set_page := pg\<rparr>)\<rparr>"
    then show ?thesis
      using i pa qn by (auto simp: s1_def)
  qed
qed

lemma fold_cell_create_cpu:
  "fold (cell_create_cpu c) xs s =
     s\<lparr>cells := (cells s)(root_cell := (cells s root_cell)
          \<lparr>cpu_set := (cpu_set (cells s root_cell))
             \<lparr>bitmap := bitmap (cpu_set (cells s root_cell)) - set xs\<rparr>\<rparr>),
       per_cpu := (\<lambda>cpu. if cpu \<in> set xs
                          then (per_cpu s cpu)\<lparr>cpu_cell := c, stats := (\<lambda>n. 0)\<rparr>
                          else per_cpu s cpu),
       trace := trace s @ map Arch_park_cpu xs\<rparr>"
proof (induction xs arbitrary: s)
  case Nil
  then show ?case by simp
next
  case (Cons x xs)
  define s1 where "s1 = cell_create_cpu c x s"
  have s1: "s1 = s\<lparr>cells := (cells s)(root_cell := (cells s root_cell)
          \<lparr>cpu_set := (cpu_set (cells s root_cell))
             \<lparr>bitmap := bitmap (cpu_set (cells s root_cell)) - {x}\<rparr>\<rparr>),
       per_cpu := (per_cpu s)(x := (per_cpu s x)\<lparr>cpu_cell := c, stats := (\<lambda>n. 0)\<rparr>),
       trace := trace s @ [Arch_park_cpu x]\<rparr>"
    unfolding s1_def
    by (simp add: cell_create_cpu_def Let_def arch_park_cpu_def call_def clear_bit_def)
  have pc: "(\<lambda>cpu. if cpu \<in> set xs
              then (per_cpu s1 cpu)\<lparr>cpu_cell := c, stats := (\<lambda>n. 0)\<rparr>
              else per_cpu s1 cpu) =
        (\<lambda>cpu. if cpu \<in> set (x # xs)
              then (per_cpu s cpu)\<lparr>cpu_cell := c, stats := (\<lambda>n. 0)\<rparr>
              else per_cpu s cpu)"
    by (rule ext) (simp add: s1)
  have bm: "bitmap (cpu_set (cells s root_cell)) - {x} - set xs =
            bitmap (cpu_set (cells s root_cell)) - set (x # xs)"
    by auto
  have "fold (cell_create_cpu c) (x # xs) s = fold (cell_create_cpu c) xs s1"
    by (simp add: s1_def)
  also have "\<dots> = s1\<lparr>cells := (cells s1)(root_cell := (cells s1 root_cell)
          \<lparr>cpu_set := (cpu_set (cells s1 root_cell))
             \<lparr>bitmap := bitmap (cpu_set (cells s1 root_cell)) - set xs\<rparr>\<rparr>),
       per_cpu := (\<lambda>cpu. if cpu \<in> set xs
                          then (per_cpu s1 cpu)\<lparr>cpu_cell := c, stats := (\<lambda>n. 0)\<rparr>
                          else per_cpu s1 cpu),
       trace := trace s1 @ map Arch_park_cpu xs\<rparr>"
    by (rule Cons.IH)
  also have "\<dots> = s\<lparr>cells := (cells s)(root_cell := (cells s root_cell)
          \<lparr>cpu_set := (cpu_set (cells s root_cell))
             \<lparr>bitmap := bitmap (cpu_set (cells s root_cell)) - set (x # xs)\<rparr>\<rparr>),
       per_cpu := (\<lambda>cpu. if cpu \<in> set (x # xs)
                          then (per_cpu s cpu)\<lparr>cpu_cell := c, stats := (\<lambda>n. 0)\<rparr>
                          else per_cpu s cpu),
       trace := trace s @ map Arch_park_cpu (x # xs)\<rparr>"
    unfolding pc by (simp add: s1 bm)
  finally show ?case .
qed

lemma for_each_cpu_subset: "set (for_each_cpu cs) \<subseteq> bitmap cs"
  by (auto simp: for_each_cpu_def for_each_cpu_except_def test_bit_def)

lemma create_progress_quiet:
  assumes "create_progress cpu_data c s sx" and "appends_quietly sx sy"
  shows "create_progress cpu_data c s sy"
proof -
  from assms(2) obtain n2 where sy: "sy = sx\<lparr>trace := trace sx @ n2\<rparr>" and q2: "suspends_resumes n2 = []"
    by (rule appends_quietlyD)
  from assms(1) obtain n1 where n1: "trace sx = trace s @ n1" "suspends_resumes n1 = []"
    unfolding create_progress_def by blast
  have "trace sy = trace s @ (n1 @ n2) \<and> suspends_resumes (n1 @ n2) = []"
    using n1 q2 by (simp add: sy)
  then have "\<exists>new. trace sy = trace s @ new \<and> suspends_resumes new = []" by blast
  then show ?thesis
    using assms(1) unfolding create_progress_def by (simp add: sy)
qed

lemma create_progress_quiet_frame:
  assumes "appends_quietly sx sy"
  shows "cells sy = cells sx" "cell_list sy = cell_list sx" "num_cells sy = num_cells sx"
    "per_cpu sy = per_cpu sx"
  using assms by (auto elim!: appends_quietlyD)

lemma create_progress_cell:
  assumes "create_progress cpu_data c s sx"
  shows "create_progress cpu_data c s (sx\<lparr>cells := (cells sx)(c := v)\<rparr>)"
  using assms unfolding create_progress_def by simp

lemma create_exit:
  assumes "create_progress cpu_data c s sx"
  shows "fst (cell_create_err_resume cpu_data e sx) = Inl e \<and>
         create_done cpu_data c s (snd (cell_create_err_resume cpu_data e sx)) \<and>
         cells (snd (cell_create_err_resume cpu_data e sx)) = cells sx \<and>
         cell_list (snd (cell_create_err_resume cpu_data e sx)) = cell_list sx \<and>
         num_cells (snd (cell_create_err_resume cpu_data e sx)) = num_cells sx"
proof -
  from assms obtain n1 where n1: "trace sx = trace s @ n1" "suspends_resumes n1 = []"
    and cc: "cpu_cell (per_cpu sx cpu_data) = root_cell"
    and ids: "\<forall>p. p \<noteq> c \<longrightarrow> cell_id (cells sx p) = cell_id (cells s p)"
    unfolding create_progress_def by blast
  have "trace (cell_resume cpu_data sx) = trace s @ n1 @
              map Arch_resume_cpu
                (for_each_cpu_except (cpu_set (cells (cell_resume cpu_data sx) root_cell))
                   (of_nat cpu_data))"
    using n1 cc by (simp add: cell_resume_eq)
  with n1(2) have "\<exists>new. trace (cell_resume cpu_data sx) = trace s @ new @
              map Arch_resume_cpu
                (for_each_cpu_except (cpu_set (cells (cell_resume cpu_data sx) root_cell))
                   (of_nat cpu_data)) \<and> suspends_resumes new = []"
    by blast
  then show ?thesis
    using ids by (simp add: cell_create_err_resume_def create_done_def)
qed

lemma cell_create_commit_result:
  assumes run: "cell_create_commit K E cpu_data c s10 = Some (rc, s')"
    and nr: "c \<noteq> root_cell"
    and prog: "create_progress cpu_data c s s10"
  shows "create_done cpu_data c s s' \<and> rc = Inr (cell_id (cells s10 c)) \<and>
         cell_id (cells s' c) = cell_id (cells s10 c) \<and>
         cpu_set (cells s' c) = cpu_set (cells s10 c) \<and>
         cell_list s' = cell_list s10 @ [c] \<and> num_cells s' = num_cells s10 + 1 \<and>
         cpu_set (cells s' root_cell) = cpu_set (cells s10 root_cell)"
proof -
  define s13 where "s13 =
    (arch_config_commit (Some c) s10)
      \<lparr>cells := (cells s10)(c := (cells s10 c)\<lparr>comm_region :=
                  (comm_region (cells s10 c))\<lparr>cell_state := JAILHOUSE_CELL_SHUT_DOWN K\<rparr>\<rparr>),
       cell_list := cell_list s10 @ [c], num_cells := num_cells s10 + 1\<rparr>"
  have unfold: "cell_create_commit K E cpu_data c s10 =
      (case cell_reconfig_completed K E s13 of
        None \<Rightarrow> None
      | Some s14 \<Rightarrow>
          Some (Inr (cell_id (cells s14 c)),
                cell_resume cpu_data (page_map_dump_stats After_cell_creation
                  (printk (Created_cell (name (config (cells s14 c)))) s14))))"
    by (simp add: cell_create_commit_def Let_def s13_def arch_config_commit_def
          page_map_dump_stats_def printk_def split: option.splits)
  from run unfold obtain s14 where rc14: "cell_reconfig_completed K E s13 = Some s14"
    by (auto split: option.splits)
  note g = same_but_msg_fields[OF cell_reconfig_completed_same[OF rc14]]
  define s16 where "s16 = page_map_dump_stats After_cell_creation
                  (printk (Created_cell (name (config (cells s14 c)))) s14)"
  have res: "rc = Inr (cell_id (cells s14 c))" "s' = cell_resume cpu_data s16"
    using run unfold rc14 by (simp_all add: s16_def)
  have q13: "create_progress cpu_data c s s13"
  proof -
    have "appends_quietly s10 (arch_config_commit (Some c) s10)"
      unfolding arch_config_commit_def by (rule appends_quietly_call) simp
    from create_progress_quiet[OF prog this]
    show ?thesis
      unfolding create_progress_def s13_def by (simp add: arch_config_commit_def)
  qed
  have q14: "create_progress cpu_data c s s14"
    using q13 g unfolding create_progress_def by simp
  have "appends_quietly s14 s16"
    unfolding s16_def page_map_dump_stats_def printk_def
    by (intro appends_quietly_trans[OF appends_quietly_call appends_quietly_call]) simp_all
  from create_progress_quiet[OF q14 this] have q16: "create_progress cpu_data c s s16" .
  have c16: "cells s16 = cells s14" "cell_list s16 = cell_list s14" "num_cells s16 = num_cells s14"
    by (simp_all add: s16_def page_map_dump_stats_def printk_def)
  from create_exit[OF q16, of EPERM] have d: "create_done cpu_data c s s'"
    by (simp add: res cell_create_err_resume_def)
  have f13: "cell_id (cells s13 c) = cell_id (cells s10 c)" "cpu_set (cells s13 c) = cpu_set (cells s10 c)"
    "cpu_set (cells s13 root_cell) = cpu_set (cells s10 root_cell)"
    "cell_list s13 = cell_list s10 @ [c]" "num_cells s13 = num_cells s10 + 1"
    using nr by (simp_all add: s13_def)
  show ?thesis
    using d res f13 g c16 by simp
qed

lemma create_progress_parked:
  assumes "create_progress cpu_data c s sx"
    and "trace sy = trace sx @ map Arch_park_cpu xs @ new" and "suspends_resumes new = []"
    and "cpu_cell (per_cpu sy cpu_data) = root_cell"
    and "\<forall>p. p \<noteq> c \<longrightarrow> cell_id (cells sy p) = cell_id (cells sx p)"
  shows "create_progress cpu_data c s sy"
proof -
  from assms(1) obtain n1 where n1: "trace sx = trace s @ n1" "suspends_resumes n1 = []"
    unfolding create_progress_def by blast
  have "trace sy = trace s @ (n1 @ map Arch_park_cpu xs @ new) \<and>
        suspends_resumes (n1 @ map Arch_park_cpu xs @ new) = []"
    using n1 assms(2,3) by simp
  then have "\<exists>n. trace sy = trace s @ n \<and> suspends_resumes n = []" by blast
  then show ?thesis
    using assms(1,4,5) unfolding create_progress_def by simp
qed

lemma cell_create_assign_result:
  assumes run: "cell_create_assign K E cpu_data c pages s8 = Some (rc, s')"
    and nr: "c \<noteq> root_cell"
    and prog: "create_progress cpu_data c s s8"
    and notown: "cpu_data \<notin> bitmap (cpu_set (cells s8 c))"
    and sub: "set (for_each_cpu (cpu_set (cells s8 c))) \<subseteq> bitmap (cpu_set (cells s8 root_cell))"
  shows "create_done cpu_data c s s' \<and> cell_id (cells s' c) = cell_id (cells s8 c) \<and>
     (case rc of
        Inl e \<Rightarrow> cpu_set (cells s' root_cell) = cpu_set (cells s8 root_cell) \<and>
                 cell_list s' = cell_list s8 \<and> num_cells s' = num_cells s8
      | Inr i \<Rightarrow> i = cell_id (cells s8 c) \<and> cell_list s' = cell_list s8 @ [c] \<and>
                 num_cells s' = num_cells s8 + 1 \<and> cpu_set (cells s' c) = cpu_set (cells s8 c) \<and>
                 cpu_set (cells s' root_cell) =
                   (cpu_set (cells s8 root_cell))
                     \<lparr>bitmap := bitmap (cpu_set (cells s8 root_cell)) -
                                 set (for_each_cpu (cpu_set (cells s8 c)))\<rparr>)"
proof -
  let ?N = "for_each_cpu (cpu_set (cells s8 c))"
  have cpuN: "cpu_data \<notin> set ?N"
    using notown for_each_cpu_subset[of "cpu_set (cells s8 c)"] by blast
  define s9 where "s9 = fold (cell_create_cpu c) ?N s8"
  have s9: "s9 = s8\<lparr>cells := (cells s8)(root_cell := (cells s8 root_cell)
          \<lparr>cpu_set := (cpu_set (cells s8 root_cell))
             \<lparr>bitmap := bitmap (cpu_set (cells s8 root_cell)) - set ?N\<rparr>\<rparr>),
       per_cpu := (\<lambda>cpu. if cpu \<in> set ?N
                          then (per_cpu s8 cpu)\<lparr>cpu_cell := c, stats := (\<lambda>n. 0)\<rparr>
                          else per_cpu s8 cpu),
       trace := trace s8 @ map Arch_park_cpu ?N\<rparr>"
    unfolding s9_def by (rule fold_cell_create_cpu)
  have root8: "cpu_cell (per_cpu s8 cpu_data) = root_cell"
    using prog unfolding create_progress_def by simp
  have p9: "create_progress cpu_data c s s9"
    by (rule create_progress_parked[OF prog, of _ ?N "[]"]) (simp_all add: s9 cpuN root8)
  obtain r10 s10 where loop:
    "cell_create_mem_loop K E c (jailhouse_cell_mem_regions (config (cells s9 c))) s9 = (r10, s10)"
    by (cases "cell_create_mem_loop K E c (jailhouse_cell_mem_regions (config (cells s9 c))) s9")
  have q10: "appends_quietly s9 s10"
    using cell_create_mem_loop_quiet[of s9 K E c "jailhouse_cell_mem_regions (config (cells s9 c))"]
      loop by simp
  note f10 = create_progress_quiet_frame[OF q10]
  have p10: "create_progress cpu_data c s s10"
    by (rule create_progress_quiet[OF p9 q10])
  have c10: "cells s10 c = cells s8 c"
    using nr by (simp add: f10 s9)
  show ?thesis
  proof (cases r10)
    case None
    then have "cell_create_commit K E cpu_data c s10 = Some (rc, s')"
      using run loop by (simp add: cell_create_assign_def Let_def s9_def[symmetric])
    from cell_create_commit_result[OF this nr p10]
    show ?thesis
      using c10 by (simp add: f10 s9)
  next
    case (Some e)
    define s11 where "s11 = cell_destroy_internal K E cpu_data c s10"
    define sx where "sx = page_free c pages (destroy_cpu_set c s11)"
    have res: "(rc, s') = cell_create_err_resume cpu_data e sx"
      using run loop Some
      by (simp add: cell_create_assign_def Let_def s9_def[symmetric] cell_create_err_destroy_cell_def
            cell_create_err_free_cpu_set_def cell_create_err_free_cell_def sx_def s11_def)
    from cell_destroy_internal_eq[of K E cpu_data c s10] obtain new where
      s11: "s11 = s10\<lparr>cells := (cells s10)(root_cell := (cells s10 root_cell)
          \<lparr>cpu_set := (cpu_set (cells s10 root_cell))
             \<lparr>bitmap := bitmap (cpu_set (cells s10 root_cell)) \<union>
                         set (for_each_cpu (cpu_set (cells s10 c)))\<rparr>\<rparr>),
       per_cpu := (\<lambda>cpu. if cpu \<in> set (for_each_cpu (cpu_set (cells s10 c)))
                          then (per_cpu s10 cpu)\<lparr>cpu_cell := root_cell, failed := False,
                                               stats := (\<lambda>n. 0)\<rparr>
                          else per_cpu s10 cpu),
       trace := trace s10 @ new\<rparr>" and qn: "suspends_resumes new = []"
      unfolding s11_def by blast
    have root10: "cpu_cell (per_cpu s10 cpu_data) = root_cell"
      using p10 unfolding create_progress_def by simp
    have p11: "create_progress cpu_data c s s11"
      by (rule create_progress_parked[OF p10, of _ "[]" new]) (simp_all add: s11 qn root10)
    have qx: "appends_quietly s11 sx"
      unfolding sx_def
      by (rule appends_quietly_trans[OF destroy_cpu_set_quiet page_free_quiet])
    have px: "create_progress cpu_data c s sx"
      by (rule create_progress_quiet[OF p11 qx])
    note fx = create_progress_quiet_frame[OF qx]
    have bm: "bitmap (cpu_set (cells s8 root_cell)) \<union> set ?N =
              bitmap (cpu_set (cells s8 root_cell))"
      using sub by blast
    have rootx: "cpu_set (cells sx root_cell) = cpu_set (cells s8 root_cell)"
      using nr by (simp add: fx s11 c10 f10 s9 bm)
    have cx: "cell_id (cells sx c) = cell_id (cells s8 c)" "cell_list sx = cell_list s8"
      "num_cells sx = num_cells s8"
      using nr by (simp_all add: fx s11 f10 s9)
    from create_exit[OF px, of e] res[symmetric]
    show ?thesis
      using rootx cx by simp
  qed
qed

lemma cell_create_allocated_result:
  assumes run: "cell_create_allocated K E cpu_data c pages cfg s5 = Some (rc, s')"
    and nr: "c \<noteq> root_cell"
    and prog: "create_progress cpu_data c s s5"
  shows "create_done cpu_data c s s' \<and>
     (case rc of
        Inl e \<Rightarrow> cpu_set (cells s' root_cell) = cpu_set (cells s5 root_cell) \<and>
                 cell_list s' = cell_list s5 \<and> num_cells s' = num_cells s5
      | Inr i \<Rightarrow> get_free_cell_id s5 = Some i \<and> cell_id (cells s' c) = i \<and>
                 cell_list s' = cell_list s5 @ [c] \<and> num_cells s' = num_cells s5 + 1 \<and>
                 cpu_set (cells s' root_cell) =
                   (cpu_set (cells s5 root_cell))
                     \<lparr>bitmap := bitmap (cpu_set (cells s5 root_cell)) -
                                 set (for_each_cpu (cpu_set (cells s' c)))\<rparr>)"
proof -
  define s6 where
    "s6 = s5\<lparr>cells := (cells s5)(c := (cells s5 c)\<lparr>data_pages := pages, config := cfg\<rparr>)\<rparr>"
  have p6: "create_progress cpu_data c s s6"
    unfolding s6_def by (rule create_progress_cell[OF prog])
  from run obtain r7 s7 where init: "cell_init K E c s6 = Some (r7, s7)"
    by (cases "cell_init K E c s6") (auto simp: cell_create_allocated_def Let_def s6_def[symmetric])
  from cell_init_result[OF init] obtain new7 where
    free: "get_free_cell_id s6 = Some (cell_id (cells s7 c))"
    and t7: "trace s7 = trace s6 @ new7" "suspends_resumes new7 = []"
    and f7: "cell_list s7 = cell_list s6" "per_cpu s7 = per_cpu s6" "num_cells s7 = num_cells s6"
    and o7: "\<forall>p. p \<noteq> c \<longrightarrow> cells s7 p = cells s6 p"
    by blast
  have root6: "cpu_cell (per_cpu s6 cpu_data) = root_cell"
    using p6 unfolding create_progress_def by simp
  have p7: "create_progress cpu_data c s s7"
    by (rule create_progress_parked[OF p6, of _ "[]" new7]) (simp_all add: t7 f7 root6 o7)
  have r7root: "cells s7 root_cell = cells s5 root_cell"
    using o7 nr by (simp add: s6_def)
  have l7: "cell_list s7 = cell_list s5" "num_cells s7 = num_cells s5"
    using f7 by (simp_all add: s6_def)
  have free5: "get_free_cell_id s5 = Some (cell_id (cells s7 c))"
    by (rule get_free_cell_id_cong[OF free]) (simp_all add: s6_def for_each_cell_def)
  have exit_free_cell: ?thesis
    if "(rc, s') = cell_create_err_free_cell cpu_data c pages e sx"
      and "create_progress cpu_data c s sx" and "cells sx root_cell = cells s5 root_cell"
      and "cell_list sx = cell_list s5" "num_cells sx = num_cells s5" for e sx
  proof -
    have q: "appends_quietly sx (page_free c pages sx)" by (rule page_free_quiet)
    from create_exit[OF create_progress_quiet[OF that(2) q], of e] that(1)[symmetric]
    show ?thesis
      using that(3,4,5) create_progress_quiet_frame[OF q]
      by (simp add: cell_create_err_free_cell_def)
  qed
  have exit_free_cpu_set: ?thesis
    if "(rc, s') = cell_create_err_free_cpu_set cpu_data c pages e sx"
      and "create_progress cpu_data c s sx" and "cells sx root_cell = cells s5 root_cell"
      and "cell_list sx = cell_list s5" "num_cells sx = num_cells s5" for e sx
  proof -
    have q: "appends_quietly sx (destroy_cpu_set c sx)" by (rule destroy_cpu_set_quiet)
    show ?thesis
      apply (rule exit_free_cell[of e "destroy_cpu_set c sx"])
      using that create_progress_quiet[OF that(2) q] create_progress_quiet_frame[OF q]
      by (simp_all add: cell_create_err_free_cpu_set_def)
  qed
  show ?thesis
  proof (cases r7)
    case (Some e)
    then have "(rc, s') = cell_create_err_free_cell cpu_data c pages e s7"
      using run init by (simp add: cell_create_allocated_def Let_def s6_def[symmetric])
    from exit_free_cell[OF this p7 r7root l7] show ?thesis .
  next
    case None
    note r7none = this
    show ?thesis
    proof (cases "cell_owns_cpu (cells s7 c) cpu_data \<or>
                  (\<exists>cpu \<in> set (for_each_cpu (cpu_set (cells s7 c))).
                     \<not> cell_owns_cpu (cells s7 root_cell) cpu)")
      case True
      then have "(rc, s') = cell_create_err_free_cpu_set cpu_data c pages EBUSY s7"
        using run init r7none
        by (auto simp: cell_create_allocated_def Let_def s6_def[symmetric] split: if_splits)
      from exit_free_cpu_set[OF this p7 r7root l7] show ?thesis .
    next
      case False
      then have notown: "cpu_data \<notin> bitmap (cpu_set (cells s7 c))"
        and sub: "set (for_each_cpu (cpu_set (cells s7 c))) \<subseteq> bitmap (cpu_set (cells s7 root_cell))"
        by (auto simp: cell_owns_cpu_def test_bit_def)
      obtain r8 s8 where ac: "arch_cell_create E c s7 = (r8, s8)"
        by (cases "arch_cell_create E c s7")
      have q8: "appends_quietly s7 s8"
        using arch_cell_create_quiet[of s7 E c] ac by simp
      note f8 = create_progress_quiet_frame[OF q8]
      have p8: "create_progress cpu_data c s s8" by (rule create_progress_quiet[OF p7 q8])
      show ?thesis
      proof (cases r8)
        case (Some e)
        then have "(rc, s') = cell_create_err_free_cpu_set cpu_data c pages e s8"
          using run init r7none False ac
          by (auto simp: cell_create_allocated_def Let_def s6_def[symmetric] split: if_splits)
        from exit_free_cpu_set[OF this p8] show ?thesis
          using r7root l7 by (simp add: f8)
      next
        case None
        then have "cell_create_assign K E cpu_data c pages s8 = Some (rc, s')"
          using run init r7none False ac
          by (auto simp: cell_create_allocated_def Let_def s6_def[symmetric] split: if_splits)
        from cell_create_assign_result[OF this nr p8] notown sub
        have d: "create_done cpu_data c s s'" "cell_id (cells s' c) = cell_id (cells s8 c)"
          and r: "(case rc of
            Inl e \<Rightarrow> cpu_set (cells s' root_cell) = cpu_set (cells s8 root_cell) \<and>
                 cell_list s' = cell_list s8 \<and> num_cells s' = num_cells s8
          | Inr i \<Rightarrow> i = cell_id (cells s8 c) \<and> cell_list s' = cell_list s8 @ [c] \<and>
                 num_cells s' = num_cells s8 + 1 \<and> cpu_set (cells s' c) = cpu_set (cells s8 c) \<and>
                 cpu_set (cells s' root_cell) =
                   (cpu_set (cells s8 root_cell))
                     \<lparr>bitmap := bitmap (cpu_set (cells s8 root_cell)) -
                                 set (for_each_cpu (cpu_set (cells s8 c)))\<rparr>)"
          by (simp_all add: f8)
        show ?thesis
          using d r free5 r7root l7 by (cases rc) (simp_all add: f8)
      qed
    qed
  qed
qed

lemma cell_create_front:
  assumes root: "cpu_cell (per_cpu s cpu_data) = root_cell"
  shows "(\<exists>e sx. cell_create K E cpu_data addr s = Some (cell_create_err_resume cpu_data e sx) \<and>
            appends_quietly (cell_suspend root_cell cpu_data s) sx) \<or>
         (\<exists>c pages cfg s5 t.
            cell_create K E cpu_data addr s = cell_create_allocated K E cpu_data c pages cfg s5 \<and>
            appends_quietly (cell_suspend root_cell cpu_data s) s5 \<and>
            page_alloc_result E t pages = Some c)"
    (is "?err \<or> ?alloc")
proof -
  define s1 where "s1 = cell_suspend root_cell cpu_data s"
  define offs where "offs = addr AND NOT (PAGE_MASK K)"
  define pages1 :: u32 where
    "pages1 = ucast (PAGE_ALIGN K (sizeof_jailhouse_cell_desc K + offs) div PAGE_SIZE K)"
  have leaf: "?thesis" if "cell_create K E cpu_data addr s = Some (cell_create_err_resume cpu_data e sx)"
    "appends_quietly s1 sx" for e sx
    using that unfolding s1_def by blast
  show ?thesis
  proof (cases "cell_reconfig_ok K None s1")
    case False
    then have "cell_create K E cpu_data addr s = Some (cell_create_err_resume cpu_data EPERM s1)"
      using root by (simp add: cell_create_def Let_def s1_def)
    from leaf[OF this] show ?thesis by simp
  next
    case True
    note ok = this
    obtain m1 s2 where g1: "page_map_get_guest_pages E addr pages1 s1 = (m1, s2)"
      by (cases "page_map_get_guest_pages E addr pages1 s1")
    have q2: "appends_quietly s1 s2"
      using page_map_get_guest_pages_quiet[of s1 E addr pages1] g1 by simp
    show ?thesis
    proof (cases m1)
      case None
      then have "cell_create K E cpu_data addr s = Some (cell_create_err_resume cpu_data ENOMEM s2)"
        using root ok g1
        by (simp add: cell_create_def Let_def s1_def[symmetric] offs_def[symmetric]
              pages1_def[symmetric])
      from leaf[OF this q2] show ?thesis .
    next
      case (Some cfg)
      note m1 = this
      define total where "total = jailhouse_cell_config_size K cfg"
      define pages2 :: u32 where
        "pages2 = ucast (PAGE_ALIGN K (total + offs) div PAGE_SIZE K)"
      show ?thesis
      proof (cases "(\<exists>c \<in> set (for_each_cell s2). name (config (cells s2 c)) = name cfg)")
        case True
        then have "cell_create K E cpu_data addr s = Some (cell_create_err_resume cpu_data EEXIST s2)"
          using root ok g1 m1
          by (simp add: cell_create_def Let_def s1_def[symmetric] offs_def[symmetric]
              pages1_def[symmetric])
        from leaf[OF this q2] show ?thesis .
      next
        case False
        note noclash = this
        show ?thesis
        proof (cases "pages2 > NUM_TEMPORARY_PAGES K")
          case True
          then have "cell_create K E cpu_data addr s = Some (cell_create_err_resume cpu_data E2BIG s2)"
            using root ok g1 m1 noclash
            by (simp add: cell_create_def Let_def s1_def[symmetric] offs_def[symmetric]
                pages1_def[symmetric] total_def[symmetric] pages2_def[symmetric])
          from leaf[OF this q2] show ?thesis .
        next
          case False
          note fits = this
          obtain m2 s3 where g2: "page_map_get_guest_pages E addr pages2 s2 = (m2, s3)"
            by (cases "page_map_get_guest_pages E addr pages2 s2")
          have q3: "appends_quietly s1 s3"
            using appends_quietly_trans[OF q2 page_map_get_guest_pages_quiet[of s2 E addr pages2]] g2
            by simp
          show ?thesis
          proof (cases m2)
            case None
            then have "cell_create K E cpu_data addr s =
                Some (cell_create_err_resume cpu_data ENOMEM s3)"
              using root ok g1 m1 noclash fits g2
              by (simp add: cell_create_def Let_def s1_def[symmetric] offs_def[symmetric]
                  pages1_def[symmetric] total_def[symmetric] pages2_def[symmetric])
            from leaf[OF this q3] show ?thesis .
          next
            case (Some mapped)
            note m2 = this
            obtain r4 s4 where ch: "check_mem_regions K cfg s3 = (r4, s4)"
              by (cases "check_mem_regions K cfg s3")
            have q4: "appends_quietly s1 s4"
              using appends_quietly_trans[OF q3 check_mem_regions_quiet[of s3 K cfg]] ch by simp
            show ?thesis
            proof (cases r4)
              case (Some e)
              then have "cell_create K E cpu_data addr s =
                  Some (cell_create_err_resume cpu_data e s4)"
                using root ok g1 m1 noclash fits g2 m2 ch
                by (simp add: cell_create_def Let_def s1_def[symmetric] offs_def[symmetric]
                    pages1_def[symmetric] total_def[symmetric] pages2_def[symmetric])
              from leaf[OF this q4] show ?thesis .
            next
              case None
              note r4 = this
              define cell_pages :: u32 where
                "cell_pages = ucast (PAGE_ALIGN K (sizeof_cell K + total) div PAGE_SIZE K)"
              obtain pa s5 where al: "page_alloc E cell_pages s4 = (pa, s5)"
                by (cases "page_alloc E cell_pages s4")
              have q5: "appends_quietly s1 s5"
                using appends_quietly_trans[OF q4 page_alloc_quiet[of s4 E cell_pages]] al by simp
              have par: "pa = page_alloc_result E (trace s4) cell_pages"
                using al by (simp add: page_alloc_def)
              show ?thesis
              proof (cases pa)
                case None
                then have "cell_create K E cpu_data addr s =
                    Some (cell_create_err_resume cpu_data ENOMEM s5)"
                  using root ok g1 m1 noclash fits g2 m2 ch r4 al
                  by (simp add: cell_create_def Let_def s1_def[symmetric] offs_def[symmetric]
                      pages1_def[symmetric] total_def[symmetric] pages2_def[symmetric]
                      cell_pages_def[symmetric])
                from leaf[OF this q5] show ?thesis .
              next
                case (Some c)
                then have "cell_create K E cpu_data addr s =
                    cell_create_allocated K E cpu_data c cell_pages cfg s5"
                  using root ok g1 m1 noclash fits g2 m2 ch r4 al
                  by (simp add: cell_create_def Let_def s1_def[symmetric] offs_def[symmetric]
                      pages1_def[symmetric] total_def[symmetric] pages2_def[symmetric]
                      cell_pages_def[symmetric])
                moreover have "page_alloc_result E (trace s4) cell_pages = Some c"
                  using par Some by simp
                ultimately have ?alloc
                  using q5 unfolding s1_def by blast
                then show ?thesis ..
              qed
            qed
          qed
        qed
      qed
    qed
  qed
qed

lemma cell_create_result:
  assumes run: "cell_create K E cpu_data addr s = Some (rc, s')"
    and root: "cpu_cell (per_cpu s cpu_data) = root_cell"
    and fresh: "\<forall>t n. page_alloc_result E t n \<noteq> Some root_cell"
  shows "(\<exists>new. trace s' = trace s @
            map Arch_suspend_cpu
              (for_each_cpu_except (cpu_set (cells s root_cell)) (of_nat cpu_data)) @ new @
            map Arch_resume_cpu
              (for_each_cpu_except (cpu_set (cells s' root_cell)) (of_nat cpu_data)) \<and>
            suspends_resumes new = []) \<and>
     (case rc of
        Inl e \<Rightarrow> cpu_set (cells s' root_cell) = cpu_set (cells s root_cell) \<and>
                 cell_list s' = cell_list s \<and> num_cells s' = num_cells s
      | Inr i \<Rightarrow> \<exists>c t n. page_alloc_result E t n = Some c \<and>
                 get_free_cell_id s = Some i \<and> cell_id (cells s' c) = i \<and>
                 cell_list s' = cell_list s @ [c] \<and> num_cells s' = num_cells s + 1 \<and>
                 (\<forall>p. p \<noteq> c \<longrightarrow> cell_id (cells s' p) = cell_id (cells s p)) \<and>
                 cpu_set (cells s' root_cell) =
                   (cpu_set (cells s root_cell))
                     \<lparr>bitmap := bitmap (cpu_set (cells s root_cell)) -
                                 set (for_each_cpu (cpu_set (cells s' c)))\<rparr>)"
    (is "?tr \<and> ?res")
proof -
  define s1 where "s1 = cell_suspend root_cell cpu_data s"
  let ?R = "for_each_cpu_except (cpu_set (cells s root_cell)) (of_nat cpu_data)"
  have s1: "s1 = s\<lparr>trace := trace s @ map Arch_suspend_cpu ?R\<rparr>"
    unfolding s1_def by (rule cell_suspend_eq)
  have p1: "create_progress cpu_data c s1 s1" for c
    unfolding create_progress_def using root by (simp add: s1)
  have done_tr: "?tr" if "create_done cpu_data c s1 s'" for c
  proof -
    from that obtain new where "trace s' = trace s1 @ new @
              map Arch_resume_cpu
                (for_each_cpu_except (cpu_set (cells s' root_cell)) (of_nat cpu_data))"
      "suspends_resumes new = []"
      unfolding create_done_def by blast
    then show ?thesis by (simp add: s1)
  qed
  from cell_create_front[OF root, of K E addr]
  show ?thesis
  proof (elim disjE exE conjE)
    fix e sx
    assume eq: "cell_create K E cpu_data addr s = Some (cell_create_err_resume cpu_data e sx)"
      and q: "appends_quietly (cell_suspend root_cell cpu_data s) sx"
    from q have q: "appends_quietly s1 sx" by (simp add: s1_def)
    note f = create_progress_quiet_frame[OF q]
    from eq run have res: "cell_create_err_resume cpu_data e sx = (rc, s')" by simp
    from create_exit[OF create_progress_quiet[OF p1[of 0] q], of e] res
    have "rc = Inl e" "create_done cpu_data 0 s1 s'" "cells s' = cells sx"
      "cell_list s' = cell_list sx" "num_cells s' = num_cells sx"
      by simp_all
    then show ?thesis
      using done_tr[of 0] by (simp add: f s1)
  next
    fix c pages cfg s5 t
    assume eq: "cell_create K E cpu_data addr s =
        cell_create_allocated K E cpu_data c pages cfg s5"
      and q: "appends_quietly (cell_suspend root_cell cpu_data s) s5"
      and pa: "page_alloc_result E t pages = Some c"
    from q have q: "appends_quietly s1 s5" by (simp add: s1_def)
    note f = create_progress_quiet_frame[OF q]
    from fresh pa have nr: "c \<noteq> root_cell" by auto
    from eq run have run5: "cell_create_allocated K E cpu_data c pages cfg s5 = Some (rc, s')"
      by simp
    from cell_create_allocated_result[OF run5 nr create_progress_quiet[OF p1 q]]
    have d: "create_done cpu_data c s1 s'"
      and r: "(case rc of
        Inl e \<Rightarrow> cpu_set (cells s' root_cell) = cpu_set (cells s5 root_cell) \<and>
                 cell_list s' = cell_list s5 \<and> num_cells s' = num_cells s5
      | Inr i \<Rightarrow> get_free_cell_id s5 = Some i \<and> cell_id (cells s' c) = i \<and>
                 cell_list s' = cell_list s5 @ [c] \<and> num_cells s' = num_cells s5 + 1 \<and>
                 cpu_set (cells s' root_cell) =
                   (cpu_set (cells s5 root_cell))
                     \<lparr>bitmap := bitmap (cpu_set (cells s5 root_cell)) -
                                 set (for_each_cpu (cpu_set (cells s' c)))\<rparr>)"
      by simp_all
    have ids: "\<forall>p. p \<noteq> c \<longrightarrow> cell_id (cells s' p) = cell_id (cells s p)"
      using d unfolding create_done_def by (simp add: s1)
    have free: "get_free_cell_id s = Some i" if "get_free_cell_id s5 = Some i" for i
      by (rule get_free_cell_id_cong[OF that]) (simp_all add: f s1 for_each_cell_def)
    have "?res"
    proof (cases rc)
      case (Inl e)
      then show ?thesis using r by (simp add: f s1)
    next
      case (Inr i)
      then have "page_alloc_result E t pages = Some c \<and>
                 get_free_cell_id s = Some i \<and> cell_id (cells s' c) = i \<and>
                 cell_list s' = cell_list s @ [c] \<and> num_cells s' = num_cells s + 1 \<and>
                 (\<forall>p. p \<noteq> c \<longrightarrow> cell_id (cells s' p) = cell_id (cells s p)) \<and>
                 cpu_set (cells s' root_cell) =
                   (cpu_set (cells s root_cell))
                     \<lparr>bitmap := bitmap (cpu_set (cells s root_cell)) -
                                 set (for_each_cpu (cpu_set (cells s' c)))\<rparr>"
        using r pa ids free by (simp add: f s1)
      then show ?thesis unfolding Inr by (simp only: sum.case) blast
    qed
    with done_tr[OF d] show ?thesis ..
  qed
qed

lemma cell_create_new_id:
  assumes run: "cell_create K E cpu_data addr s = Some (Inr j, s')"
    and fresh: "\<forall>t n c. page_alloc_result E t n = Some c \<longrightarrow> c \<notin> set (for_each_cell s)"
  shows "get_free_cell_id s = Some j \<and>
         (\<exists>c. c \<notin> set (for_each_cell s) \<and> cell_list s' = cell_list s @ [c] \<and>
              cell_id (cells s' c) = j \<and> cell_ids s' = cell_ids s @ [j])"
proof -
  have root: "cpu_cell (per_cpu s cpu_data) = root_cell"
  proof (rule ccontr)
    assume "cpu_cell (per_cpu s cpu_data) \<noteq> root_cell"
    then have "cell_create K E cpu_data addr s = Some (Inl EPERM, s)"
      by (simp add: cell_create_def)
    with run show False by simp
  qed
  have fr: "\<forall>t n. page_alloc_result E t n \<noteq> Some root_cell"
    using fresh by (auto simp: for_each_cell_def)
  from cell_create_result[OF run root fr] obtain c t n where
    pa: "page_alloc_result E t n = Some c" and free: "get_free_cell_id s = Some j"
    and idc: "cell_id (cells s' c) = j" and l: "cell_list s' = cell_list s @ [c]"
    and ids: "\<forall>p. p \<noteq> c \<longrightarrow> cell_id (cells s' p) = cell_id (cells s p)"
    by auto
  from fresh pa have nin: "c \<notin> set (for_each_cell s)" by blast
  have "map (\<lambda>p. cell_id (cells s' p)) (for_each_cell s) = cell_ids s"
    unfolding cell_ids_def using ids nin by (intro map_cong) auto
  then have "cell_ids s' = cell_ids s @ [j]"
    using l idc by (simp add: cell_ids_def for_each_cell_def)
  with free nin l idc show ?thesis by blast
qed

subsection \<open>A run of cell_create that succeeds\<close>

lemma sample_create_env_simps [simp]:
  "comm_reads sample_create_env c = [(0, 0), (3, 0)]"
  "arch_result sample_create_env t ev = None"
  "guest_pages sample_create_env t a n = Some sample_new_config"
  "page_alloc_result sample_create_env t n = Some 2"
  by (simp_all add: sample_create_env_def sample_env_def)

lemma sample_new_config_simps [simp]:
  "name sample_new_config = ''new''"
  "flags_desc sample_new_config = 0"
  "cpu_set_size sample_new_config = 1"
  "jailhouse_cell_cpu_set sample_new_config = {1}"
  "jailhouse_cell_mem_regions sample_new_config = []"
  by (simp_all add: sample_new_config_def)

lemma sample_create_front:
  "\<exists>s5. cell_create sample_consts sample_create_env 0 0 sample_state =
           cell_create_allocated sample_consts sample_create_env 0 2 3 sample_new_config s5 \<and>
         appends_quietly (cell_suspend root_cell 0 sample_state) s5"
proof -
  define s1 where "s1 = cell_suspend root_cell 0 sample_state"
  have f1: "cells s1 = cells sample_state" "cell_list s1 = [1]"
    by (simp_all add: s1_def cell_suspend_eq)
  have ok: "cell_reconfig_ok sample_consts None s1"
    by (simp add: cell_reconfig_ok_iff f1 for_each_non_root_cell_def)
  define s2 where "s2 = call (Page_map_get_guest_pages 0 1) s1"
  define s3 where "s3 = call (Page_map_get_guest_pages 0 1) s2"
  define s5 where "s5 = call (Page_alloc 3) s3"
  have fc: "for_each_cell (call ev s) = for_each_cell s" for ev s
    by (simp add: for_each_cell_def)
  have names: "\<not> (\<exists>c \<in> set (for_each_cell s1). name (config (cells s1 c)) = name sample_new_config)"
    by (simp add: for_each_cell_def f1 root_cell_def sample_new_config_def sample_root_def
          sample_guest_def)
  have sizes: "PAGE_ALIGN sample_consts (sizeof_jailhouse_cell_desc sample_consts) div PAGE_SIZE sample_consts = 1"
    "jailhouse_cell_config_size sample_consts sample_new_config = 49"
    "PAGE_ALIGN sample_consts 49 div PAGE_SIZE sample_consts = 1"
    "PAGE_ALIGN sample_consts (sizeof_cell sample_consts + 49) div PAGE_SIZE sample_consts = 3"
    "NUM_TEMPORARY_PAGES sample_consts = 16"
    by (simp_all add: sample_consts_def sample_new_config_def num_memory_regions_def)
  have "cell_create sample_consts sample_create_env 0 0 sample_state =
           cell_create_allocated sample_consts sample_create_env 0 2 3 sample_new_config s5"
    using ok names
    by (simp add: fc cell_create_def Let_def root_cell_def s1_def[symmetric, unfolded root_cell_def]
          page_map_get_guest_pages_def sizes s2_def[symmetric] s3_def[symmetric]
          check_mem_regions_def page_alloc_def s5_def[symmetric])
  moreover have "appends_quietly s1 s5"
    unfolding s5_def s3_def s2_def
    by (intro appends_quietly_trans[OF appends_quietly_call
          appends_quietly_trans[OF appends_quietly_call appends_quietly_call]]) simp_all
  ultimately show ?thesis unfolding s1_def by blast
qed

lemma cell_create_commit_returns:
  assumes "\<forall>other \<in> set (cell_list s10 @ [c]). cell_answers K E s10 other"
  shows "\<exists>s'. cell_create_commit K E cpu_data c s10 = Some (Inr (cell_id (cells s10 c)), s')"
proof -
  define s13 where "s13 =
    (arch_config_commit (Some c) s10)
      \<lparr>cells := (cells s10)(c := (cells s10 c)\<lparr>comm_region :=
                  (comm_region (cells s10 c))\<lparr>cell_state := JAILHOUSE_CELL_SHUT_DOWN K\<rparr>\<rparr>),
       cell_list := cell_list s10 @ [c], num_cells := num_cells s10 + 1\<rparr>"
  have unfold: "cell_create_commit K E cpu_data c s10 =
      (case cell_reconfig_completed K E s13 of
        None \<Rightarrow> None
      | Some s14 \<Rightarrow>
          Some (Inr (cell_id (cells s14 c)),
                cell_resume cpu_data (page_map_dump_stats After_cell_creation
                  (printk (Created_cell (name (config (cells s14 c)))) s14))))"
    by (simp add: cell_create_commit_def Let_def s13_def arch_config_commit_def
          page_map_dump_stats_def printk_def split: option.splits)
  have "\<forall>other \<in> set (for_each_non_root_cell s13). cell_answers K E s13 other"
    using assms by (simp add: for_each_non_root_cell_def cell_answers_def s13_def)
  from cell_reconfig_completed_loop_returns[OF this] obtain s14 where
    s14: "cell_reconfig_completed K E s13 = Some s14"
    unfolding cell_reconfig_completed_def by blast
  have "cell_id (cells s14 c) = cell_id (cells s10 c)"
    using same_but_msg_fields(1)[OF cell_reconfig_completed_same[OF s14], of c]
    by (simp add: s13_def)
  then show ?thesis
    using unfold s14 by simp
qed

lemma cell_create_assign_returns:
  assumes "jailhouse_cell_mem_regions (config (cells s8 c)) = []" and "c \<noteq> root_cell"
    and "\<forall>other \<in> set (cell_list s8 @ [c]). cell_answers K E s8 other"
  shows "\<exists>s'. cell_create_assign K E cpu_data c pages s8 = Some (Inr (cell_id (cells s8 c)), s')"
proof -
  define s9 where "s9 = fold (cell_create_cpu c) (for_each_cpu (cpu_set (cells s8 c))) s8"
  have f9: "cells s9 c = cells s8 c" "cell_list s9 = cell_list s8"
    "\<And>p. config (cells s9 p) = config (cells s8 p)"
    using assms(2) by (simp_all add: s9_def fold_cell_create_cpu)
  have eq: "cell_create_assign K E cpu_data c pages s8 = cell_create_commit K E cpu_data c s9"
    using assms(1) by (simp add: cell_create_assign_def Let_def s9_def[symmetric] f9)
  have "\<forall>other \<in> set (cell_list s9 @ [c]). cell_answers K E s9 other"
    using assms(3) by (simp add: cell_answers_def f9)
  from cell_create_commit_returns[OF this, of cpu_data] show ?thesis
    by (simp add: eq f9)
qed

lemma sample_free_id:
  assumes "cell_list s = [1]" "cell_id (cells s 0) = 0" "cell_id (cells s 1) = 1"
  shows "get_free_cell_id s = Some 2"
proof -
  have "id_in_use s 0" "id_in_use s 1" "\<not> id_in_use s 2"
    using assms by (simp_all add: id_in_use_def for_each_cell_def root_cell_def)
  then show ?thesis
    using get_free_cell_id_retry_unfold[of s 0] get_free_cell_id_retry_unfold[of s 1]
      get_free_cell_id_retry_unfold[of s 2]
    by (simp add: get_free_cell_id_def)
qed

lemma upt_8: "[0..<8] = [0, 1, 2, 3, 4, 5, 6, 7::nat]"
  by (simp add: upt_rec)

lemma sample_new_cpus [simp]: "for_each_cpu \<lparr>max_cpu_id = 7, bitmap = {Suc 0}\<rparr> = [1]"
  by (simp add: for_each_cpu_def for_each_cpu_except_def test_bit_def upt_8 unat_m1_u32)

lemma sample_create_allocated:
  assumes "cells s5 = cells sample_state" "cell_list s5 = [1]"
  shows "\<exists>s'. cell_create_allocated sample_consts sample_create_env 0 2 3 sample_new_config s5 =
           Some (Inr 2, s')"
proof -
  define s6 where "s6 = s5\<lparr>cells := (cells s5)(2 := (cells s5 2)\<lparr>data_pages := 3,
                            config := sample_new_config\<rparr>)\<rparr>"
  have free: "get_free_cell_id s6 = Some 2"
    by (rule sample_free_id) (simp_all add: s6_def assms)
  define new_cell where "new_cell = (cells s5 2)\<lparr>data_pages := 3, config := sample_new_config,
      cell_id := 2, cpu_set := \<lparr>max_cpu_id = 7, bitmap = {1}\<rparr>, cpu_set_page := None\<rparr>"
  define s7 where "s7 = s5\<lparr>cells := (cells s5)(2 := new_cell)\<rparr>"
  have bits: "{b. b = Suc 0 \<and> b < 8} = {Suc 0}" by auto
  have init: "cell_init sample_consts sample_create_env 2 s6 = Some (None, s7)"
    unfolding cell_init_def free option.case
    by (simp add: Let_def s6_def s7_def new_cell_def sample_consts_def bits)
  have c7: "cells s7 2 = new_cell" "cells s7 root_cell = sample_root" "cell_list s7 = [1]"
    "cells s7 1 = sample_guest"
    by (simp_all add: s7_def assms root_cell_def)
  define s8 where "s8 = call (Arch_cell_create 2) s7"
  have eq: "cell_create_allocated sample_consts sample_create_env 0 2 3 sample_new_config s5 =
      cell_create_assign sample_consts sample_create_env 0 2 3 s8"
    by (simp add: cell_create_allocated_def Let_def s6_def[symmetric] init c7 cell_owns_cpu_def
          test_bit_def new_cell_def arch_cell_create_def call_status_def s8_def)
  have "\<exists>s'. cell_create_assign sample_consts sample_create_env 0 2 3 s8 =
           Some (Inr (cell_id (cells s8 2)), s')"
    by (rule cell_create_assign_returns)
      (simp_all add: s8_def c7 new_cell_def root_cell_def cell_answers_def)
  then show ?thesis
    by (simp add: eq s8_def c7 new_cell_def)
qed

lemma sample_create:
  "\<exists>s'. cell_create sample_consts sample_create_env 0 0 sample_state = Some (Inr 2, s')"
proof -
  from sample_create_front obtain s5 where
    eq: "cell_create sample_consts sample_create_env 0 0 sample_state =
           cell_create_allocated sample_consts sample_create_env 0 2 3 sample_new_config s5"
    and q: "appends_quietly (cell_suspend root_cell 0 sample_state) s5"
    by blast
  from q have "cells s5 = cells sample_state" "cell_list s5 = [1]"
    by (auto elim!: appends_quietlyD simp: cell_suspend_eq)
  from sample_create_allocated[OF this] show ?thesis
    by (simp add: eq)
qed

lemma sample_create_fresh:
  "\<forall>t n c. page_alloc_result sample_create_env t n = Some c \<longrightarrow>
     c \<notin> set (for_each_cell sample_state)"
  by (simp add: for_each_cell_def root_cell_def)

lemma sample_cell_init:
  "\<exists>s1. cell_init sample_consts sample_env 2 sample_state = Some (None, s1)"
proof -
  have free: "get_free_cell_id sample_state = Some 2"
    by (rule sample_free_id) simp_all
  show ?thesis
    unfolding cell_init_def free option.case
    by (simp add: Let_def sample_consts_def sample_state_def sample_root_def)
qed

lemma cell_destroy_returns:
  assumes "cell_management_prologue K E CELL_DESTROY cpu_data ident s = Some (Inr c, s1)"
    and "\<forall>other \<in> set (remove1 c (cell_list s)). cell_answers K E s other"
  shows "\<exists>s'. cell_destroy K E cpu_data ident s = Some (None, s')"
proof -
  from cell_destroy_after_prologue[OF assms(1)] obtain s6 where
    eq: "cell_destroy K E cpu_data ident s =
       (case cell_reconfig_completed K E s6 of
          None \<Rightarrow> None
        | Some s7 \<Rightarrow> Some (None, cell_resume cpu_data s7))"
    and l: "cell_list s6 = remove1 c (cell_list s)"
    and cfg: "\<forall>p. config (cells s6 p) = config (cells s p)"
    by blast
  have "\<forall>other \<in> set (for_each_non_root_cell s6). cell_answers K E s6 other"
    using assms(2) cfg l by (simp add: for_each_non_root_cell_def cell_answers_def)
  from cell_reconfig_completed_loop_returns[OF this] obtain s7 where
    "cell_reconfig_completed K E s6 = Some s7"
    unfolding cell_reconfig_completed_def by blast
  then show ?thesis by (simp add: eq)
qed

section \<open>The suspends and resumes of the lifecycle operations\<close>

lemma suspended_then_resumedI:
  assumes "trace s' = trace s @ map Arch_suspend_cpu (other_cpus s root_cell cpu_data) @
             map Arch_suspend_cpu target @ new @
             map Arch_resume_cpu (other_cpus s' root_cell cpu_data)"
    and "suspends_resumes new = []"
  shows "suspended_then_resumed s s' cpu_data target"
  using assms by (simp add: suspended_then_resumed_def new_calls_def)

lemma prologue_error_calls:
  assumes "cell_management_prologue K E task cpu_data ident s = Some (Inl e, s1)"
    and root: "cpu_cell (per_cpu s cpu_data) = root_cell"
  shows "suspended_then_resumed s s1 cpu_data [] \<and>
         cpu_set (cells s1 root_cell) = cpu_set (cells s root_cell)"
proof -
  from prologue_error[OF assms(1)] root obtain s0 where sb: "same_but_msg s s0"
    and s1: "s1 = s0\<lparr>trace := trace s @
                    map Arch_suspend_cpu
                      (for_each_cpu_except (cpu_set (cells s root_cell)) (of_nat cpu_data)) @
                    map Arch_resume_cpu
                      (for_each_cpu_except (cpu_set (cells s root_cell)) (of_nat cpu_data))\<rparr>"
    by blast
  note f = same_but_msg_fields[OF sb]
  have cs: "cpu_set (cells s1 root_cell) = cpu_set (cells s root_cell)"
    by (simp add: s1 f)
  have "suspended_then_resumed s s1 cpu_data []"
    by (rule suspended_then_resumedI[where new = "[]"]) (simp_all add: other_cpus_def cs, simp add: s1)
  with cs show ?thesis by simp
qed

lemma prologue_success_trace:
  assumes "cell_management_prologue K E task cpu_data ident s = Some (Inr c, s1)"
  shows "trace s1 = trace s @ map Arch_suspend_cpu (other_cpus s root_cell cpu_data) @
           map Arch_suspend_cpu (target_cpus K E task cpu_data ident s)"
    and "cpu_cell (per_cpu s cpu_data) = root_cell"
    and "target_cell K E task cpu_data ident s = Some c"
  using prologue_success[OF assms] assms
  by (auto simp: target_cpus_def target_cell_def other_cpus_def)

lemma cell_start_calls:
  assumes run: "cell_start K E cpu_data ident s = Some (r, s')"
    and root: "cpu_cell (per_cpu s cpu_data) = root_cell"
  shows "suspended_then_resumed s s' cpu_data (target_cpus K E CELL_START cpu_data ident s) \<and>
         cpu_set (cells s' root_cell) = cpu_set (cells s root_cell)"
proof (cases "cell_management_prologue K E CELL_START cpu_data ident s")
  case None
  with run show ?thesis by (simp add: cell_start_def)
next
  case (Some res)
  obtain x s1 where res: "res = (x, s1)" by (cases res)
  show ?thesis
  proof (cases x)
    case (Inl e)
    with Some res run have "s' = s1" by (simp add: cell_start_def)
    moreover have "target_cpus K E CELL_START cpu_data ident s = []"
      using Some res Inl by (simp add: target_cpus_def target_cell_def)
    ultimately show ?thesis
      using prologue_error_calls[OF Some[unfolded res Inl] root] by simp
  next
    case (Inr c)
    note p = Some[unfolded res Inr]
    from cell_start_after_prologue[OF p] run obtain new where
      tr: "trace s' = trace s1 @ new @
             map Arch_resume_cpu
               (for_each_cpu_except (cpu_set (cells s root_cell)) (of_nat cpu_data))"
      and q: "suspends_resumes new = []"
      and cs: "cpu_set (cells s' root_cell) = cpu_set (cells s root_cell)"
      by auto
    have "suspended_then_resumed s s' cpu_data (target_cpus K E CELL_START cpu_data ident s)"
      by (rule suspended_then_resumedI[OF _ q])
        (simp add: tr prologue_success_trace(1)[OF p] other_cpus_def cs)
    with cs show ?thesis by simp
  qed
qed

lemma cell_set_loadable_calls:
  assumes run: "cell_set_loadable K E cpu_data ident s = Some (r, s')"
    and root: "cpu_cell (per_cpu s cpu_data) = root_cell"
  shows "suspended_then_resumed s s' cpu_data
           (target_cpus K E CELL_SET_LOADABLE cpu_data ident s) \<and>
         cpu_set (cells s' root_cell) = cpu_set (cells s root_cell)"
proof (cases "cell_management_prologue K E CELL_SET_LOADABLE cpu_data ident s")
  case None
  with run show ?thesis by (simp add: cell_set_loadable_def)
next
  case (Some res)
  obtain x s1 where res: "res = (x, s1)" by (cases res)
  show ?thesis
  proof (cases x)
    case (Inl e)
    with Some res run have "s' = s1" by (simp add: cell_set_loadable_def)
    moreover have "target_cpus K E CELL_SET_LOADABLE cpu_data ident s = []"
      using Some res Inl by (simp add: target_cpus_def target_cell_def)
    ultimately show ?thesis
      using prologue_error_calls[OF Some[unfolded res Inl] root] by simp
  next
    case (Inr c)
    note p = Some[unfolded res Inr]
    from cell_set_loadable_after_prologue[OF p] run obtain new where
      tr: "trace s' = trace s1 @ map Arch_park_cpu (for_each_cpu (cpu_set (cells s c))) @ new @
             map Arch_resume_cpu
               (for_each_cpu_except (cpu_set (cells s root_cell)) (of_nat cpu_data))"
      and q: "suspends_resumes new = []"
      and cs: "cpu_set (cells s' root_cell) = cpu_set (cells s root_cell)"
      by auto
    have q': "suspends_resumes (map Arch_park_cpu (for_each_cpu (cpu_set (cells s c))) @ new) = []"
      using q by (simp add: suspends_resumes_def)
    have "suspended_then_resumed s s' cpu_data
            (target_cpus K E CELL_SET_LOADABLE cpu_data ident s)"
      by (rule suspended_then_resumedI[OF _ q'])
        (simp add: tr prologue_success_trace(1)[OF p] other_cpus_def cs)
    with cs show ?thesis by simp
  qed
qed

lemma cell_destroy_calls:
  assumes run: "cell_destroy K E cpu_data ident s = Some (r, s')"
    and root: "cpu_cell (per_cpu s cpu_data) = root_cell"
  shows "suspended_then_resumed s s' cpu_data (target_cpus K E CELL_DESTROY cpu_data ident s) \<and>
         cpu_set (cells s' root_cell) =
           (cpu_set (cells s root_cell))
             \<lparr>bitmap := bitmap (cpu_set (cells s root_cell)) \<union>
                (case target_cell K E CELL_DESTROY cpu_data ident s of
                   Some c \<Rightarrow> set (for_each_cpu (cpu_set (cells s c)))
                 | None \<Rightarrow> {})\<rparr>"
proof (cases "cell_management_prologue K E CELL_DESTROY cpu_data ident s")
  case None
  with run show ?thesis by (simp add: cell_destroy_def)
next
  case (Some res)
  obtain x s1 where res: "res = (x, s1)" by (cases res)
  show ?thesis
  proof (cases x)
    case (Inl e)
    with Some res run have "s' = s1" by (simp add: cell_destroy_def)
    moreover have "target_cpus K E CELL_DESTROY cpu_data ident s = []"
      "target_cell K E CELL_DESTROY cpu_data ident s = None"
      using Some res Inl by (simp_all add: target_cpus_def target_cell_def)
    ultimately show ?thesis
      using prologue_error_calls[OF Some[unfolded res Inl] root] by simp
  next
    case (Inr c)
    note p = Some[unfolded res Inr]
    from cell_destroy_after_prologue[OF p] obtain s6 new where
      eq: "cell_destroy K E cpu_data ident s =
       (case cell_reconfig_completed K E s6 of
          None \<Rightarrow> None
        | Some s7 \<Rightarrow> Some (None, cell_resume cpu_data s7))"
      and tr: "trace s6 = trace s1 @ new" and q: "suspends_resumes new = []"
      and cs: "cpu_set (cells s6 root_cell) =
       (cpu_set (cells s root_cell))
         \<lparr>bitmap := bitmap (cpu_set (cells s root_cell)) \<union>
                     set (for_each_cpu (cpu_set (cells s c)))\<rparr>"
      and cc: "cpu_cell (per_cpu s6 cpu_data) = root_cell"
      by blast
    from run eq obtain s7 where s7: "cell_reconfig_completed K E s6 = Some s7"
      and s': "s' = cell_resume cpu_data s7"
      by (auto split: option.splits)
    note g = same_but_msg_fields[OF cell_reconfig_completed_same[OF s7]]
    have cs': "cpu_set (cells s' root_cell) =
       (cpu_set (cells s root_cell))
         \<lparr>bitmap := bitmap (cpu_set (cells s root_cell)) \<union>
                     set (for_each_cpu (cpu_set (cells s c)))\<rparr>"
      using cs g by (simp add: s' cell_resume_eq)
    have tr': "trace s' = trace s1 @ new @
        map Arch_resume_cpu (other_cpus s' root_cell cpu_data)"
      using tr g cc by (simp add: s' cell_resume_eq other_cpus_def)
    have "suspended_then_resumed s s' cpu_data (target_cpus K E CELL_DESTROY cpu_data ident s)"
      by (rule suspended_then_resumedI[OF _ q])
        (simp add: tr' prologue_success_trace(1)[OF p])
    with cs' show ?thesis
      by (simp add: prologue_success_trace(3)[OF p])
  qed
qed

lemma cell_create_calls:
  assumes run: "cell_create K E cpu_data addr s = Some (rc, s')"
    and root: "cpu_cell (per_cpu s cpu_data) = root_cell"
    and fresh: "\<forall>t n. page_alloc_result E t n \<noteq> Some root_cell"
  shows "suspended_then_resumed s s' cpu_data [] \<and>
         max_cpu_id (cpu_set (cells s' root_cell)) = max_cpu_id (cpu_set (cells s root_cell)) \<and>
         bitmap (cpu_set (cells s' root_cell)) \<subseteq> bitmap (cpu_set (cells s root_cell)) \<and>
         (case rc of Inl e \<Rightarrow> cpu_set (cells s' root_cell) = cpu_set (cells s root_cell)
          | Inr i \<Rightarrow> \<exists>c. cell_list s' = cell_list s @ [c] \<and>
              bitmap (cpu_set (cells s' root_cell)) =
                bitmap (cpu_set (cells s root_cell)) - set (for_each_cpu (cpu_set (cells s' c))))"
proof -
  from cell_create_result[OF run root fresh] obtain new where
    tr: "trace s' = trace s @
            map Arch_suspend_cpu
              (for_each_cpu_except (cpu_set (cells s root_cell)) (of_nat cpu_data)) @ new @
            map Arch_resume_cpu
              (for_each_cpu_except (cpu_set (cells s' root_cell)) (of_nat cpu_data))"
    and q: "suspends_resumes new = []"
    and r: "(case rc of
        Inl e \<Rightarrow> cpu_set (cells s' root_cell) = cpu_set (cells s root_cell) \<and>
                 cell_list s' = cell_list s \<and> num_cells s' = num_cells s
      | Inr i \<Rightarrow> \<exists>c t n. page_alloc_result E t n = Some c \<and>
                 get_free_cell_id s = Some i \<and> cell_id (cells s' c) = i \<and>
                 cell_list s' = cell_list s @ [c] \<and> num_cells s' = num_cells s + 1 \<and>
                 (\<forall>p. p \<noteq> c \<longrightarrow> cell_id (cells s' p) = cell_id (cells s p)) \<and>
                 cpu_set (cells s' root_cell) =
                   (cpu_set (cells s root_cell))
                     \<lparr>bitmap := bitmap (cpu_set (cells s root_cell)) -
                                 set (for_each_cpu (cpu_set (cells s' c)))\<rparr>)"
    by blast
  have "suspended_then_resumed s s' cpu_data []"
    by (rule suspended_then_resumedI[OF _ q]) (simp add: tr other_cpus_def)
  moreover have "max_cpu_id (cpu_set (cells s' root_cell)) = max_cpu_id (cpu_set (cells s root_cell)) \<and>
         bitmap (cpu_set (cells s' root_cell)) \<subseteq> bitmap (cpu_set (cells s root_cell)) \<and>
         (case rc of Inl e \<Rightarrow> cpu_set (cells s' root_cell) = cpu_set (cells s root_cell)
          | Inr i \<Rightarrow> \<exists>c. cell_list s' = cell_list s @ [c] \<and>
              bitmap (cpu_set (cells s' root_cell)) =
                bitmap (cpu_set (cells s root_cell)) - set (for_each_cpu (cpu_set (cells s' c))))"
  proof (cases rc)
    case (Inl e)
    then show ?thesis using r by simp
  next
    case (Inr i)
    with r obtain c where "cell_list s' = cell_list s @ [c]"
      "cpu_set (cells s' root_cell) =
                   (cpu_set (cells s root_cell))
                     \<lparr>bitmap := bitmap (cpu_set (cells s root_cell)) -
                                 set (for_each_cpu (cpu_set (cells s' c)))\<rparr>"
      by auto
    then show ?thesis unfolding Inr by (simp only: sum.case) auto
  qed
  ultimately show ?thesis ..
qed

lemma sample_target:
  "target_cpus sample_consts sample_env task 0 1 sample_state = [2]"
  "other_cpus sample_state root_cell 0 = [1]"
  by (simp_all add: target_cpus_def target_cell_def sample_prologue other_cpus_def root_cell_def)

text \<open>
  C2. Every lifecycle operation that returns makes its suspends and resumes in one shape.
  When the caller's CPU is not in the root cell, the state is returned as it was: nothing
  is suspended. Otherwise (\<open>page_alloc\<close> never returning the root cell itself)
  \<open>arch_suspend_cpu\<close> is called first on the root cell's CPUs other than the caller's,
  in ascending order, then, in start, set_loadable and destroy, on the CPUs of the target
  cell when the prologue succeeded. The last of these calls are \<open>arch_resume_cpu\<close> on
  the CPUs that the root cell owns at the return, other than the caller's, in ascending
  order; this holds on every path, the error paths included, and no other suspend or
  resume is made. For start and set_loadable the root cell's CPU set at the return is the
  one at the call, so the target's CPUs get no \<open>arch_resume_cpu\<close>; destroy adds the
  CPUs of the destroyed cell to it; create takes the CPUs of the new cell from it when it
  succeeds and leaves it as it was when it fails.
\<close>

theorem lifecycle_suspends_and_resumes:
  assumes "\<forall>t n. page_alloc_result E t n \<noteq> Some root_cell"
  shows
    "(cell_start K E cpu_data ident s = Some (r, s') \<longrightarrow>
        (if cpu_cell (per_cpu s cpu_data) = root_cell
         then suspended_then_resumed s s' cpu_data (target_cpus K E CELL_START cpu_data ident s) \<and>
              cpu_set (cells s' root_cell) = cpu_set (cells s root_cell)
         else s' = s)) \<and>
     (cell_set_loadable K E cpu_data ident s = Some (r, s') \<longrightarrow>
        (if cpu_cell (per_cpu s cpu_data) = root_cell
         then suspended_then_resumed s s' cpu_data
                (target_cpus K E CELL_SET_LOADABLE cpu_data ident s) \<and>
              cpu_set (cells s' root_cell) = cpu_set (cells s root_cell)
         else s' = s)) \<and>
     (cell_destroy K E cpu_data ident s = Some (r, s') \<longrightarrow>
        (if cpu_cell (per_cpu s cpu_data) = root_cell
         then suspended_then_resumed s s' cpu_data
                (target_cpus K E CELL_DESTROY cpu_data ident s) \<and>
              cpu_set (cells s' root_cell) =
                (cpu_set (cells s root_cell))
                  \<lparr>bitmap := bitmap (cpu_set (cells s root_cell)) \<union>
                     (case target_cell K E CELL_DESTROY cpu_data ident s of
                        Some c \<Rightarrow> set (for_each_cpu (cpu_set (cells s c)))
                      | None \<Rightarrow> {})\<rparr>
         else s' = s)) \<and>
     (cell_create K E cpu_data config_address s = Some (rc, s'') \<longrightarrow>
        (if cpu_cell (per_cpu s cpu_data) = root_cell
         then suspended_then_resumed s s'' cpu_data [] \<and>
              max_cpu_id (cpu_set (cells s'' root_cell)) =
                max_cpu_id (cpu_set (cells s root_cell)) \<and>
              bitmap (cpu_set (cells s'' root_cell)) \<subseteq> bitmap (cpu_set (cells s root_cell)) \<and>
              (case rc of
                 Inl e \<Rightarrow> cpu_set (cells s'' root_cell) = cpu_set (cells s root_cell)
               | Inr i \<Rightarrow>
                   \<exists>c. cell_list s'' = cell_list s @ [c] \<and>
                       bitmap (cpu_set (cells s'' root_cell)) =
                         bitmap (cpu_set (cells s root_cell)) -
                         set (for_each_cpu (cpu_set (cells s'' c))))
         else s'' = s))"
proof (cases "cpu_cell (per_cpu s cpu_data) = root_cell")
  case True
  show ?thesis
    unfolding if_P[OF True]
    using cell_start_calls[OF _ True, of K E ident r s']
      cell_set_loadable_calls[OF _ True, of K E ident r s']
      cell_destroy_calls[OF _ True, of K E ident r s']
      cell_create_calls[OF _ True assms, of K config_address rc s'']
    by blast
next
  case False
  then show ?thesis
    by (auto simp: cell_start_def cell_set_loadable_def cell_destroy_def cell_create_def
          cell_management_prologue_def)
qed

theorem lifecycle_suspends_and_resumes_witness:
  "(\<forall>t n. page_alloc_result sample_env t n \<noteq> Some root_cell) \<and>
   (\<forall>t n. page_alloc_result sample_create_env t n \<noteq> Some root_cell) \<and>
   cpu_cell (per_cpu sample_state 0) = root_cell \<and>
   (\<exists>s'. cell_start sample_consts sample_env 0 1 sample_state = Some (None, s') \<and>
      suspends_resumes (new_calls sample_state s') =
        [Arch_suspend_cpu 1, Arch_suspend_cpu 2, Arch_resume_cpu 1]) \<and>
   (\<exists>r s'. cell_set_loadable sample_consts sample_env 0 1 sample_state = Some (r, s') \<and>
      suspends_resumes (new_calls sample_state s') =
        [Arch_suspend_cpu 1, Arch_suspend_cpu 2, Arch_resume_cpu 1]) \<and>
   (\<exists>s'. cell_destroy sample_consts sample_env 0 1 sample_state = Some (None, s') \<and>
      suspends_resumes (new_calls sample_state s') =
        [Arch_suspend_cpu 1, Arch_suspend_cpu 2, Arch_resume_cpu 1, Arch_resume_cpu 2]) \<and>
   (\<exists>s'. cell_create sample_consts sample_create_env 0 0 sample_state = Some (Inr 2, s') \<and>
      suspends_resumes (new_calls sample_state s') =
        Arch_suspend_cpu 1 # map Arch_resume_cpu (other_cpus s' root_cell 0) \<and>
      bitmap (cpu_set (cells s' root_cell)) \<subseteq> {0, 1})"
proof -
  have a: "\<forall>t n. page_alloc_result sample_env t n \<noteq> Some root_cell"
    by (simp add: sample_env_def)
  have a': "\<forall>t n. page_alloc_result sample_create_env t n \<noteq> Some root_cell"
    by (simp add: root_cell_def)
  have b: "cpu_cell (per_cpu sample_state 0) = root_cell"
    by (simp add: root_cell_def)
  have start: "\<exists>s'. cell_start sample_consts sample_env 0 1 sample_state = Some (None, s') \<and>
      suspends_resumes (new_calls sample_state s') =
        [Arch_suspend_cpu 1, Arch_suspend_cpu 2, Arch_resume_cpu 1]"
  proof -
    from cell_start_after_prologue[OF sample_prologue[of CELL_START]]
    obtain s' where run: "cell_start sample_consts sample_env 0 1 sample_state = Some (None, s')"
      by auto
    from lifecycle_suspends_and_resumes[OF a, of sample_consts 0 1 sample_state None s'] run b
    have "suspended_then_resumed sample_state s' 0 [2]"
      and c: "cpu_set (cells s' root_cell) = cpu_set (cells sample_state root_cell)"
      by (simp_all add: sample_target)
    then have "suspends_resumes (new_calls sample_state s') =
          [Arch_suspend_cpu 1, Arch_suspend_cpu 2, Arch_resume_cpu 1]"
      by (simp add: suspended_then_resumed_def other_cpus_def sample_target root_cell_def)
    with run show ?thesis by blast
  qed
  have loadable: "\<exists>r s'. cell_set_loadable sample_consts sample_env 0 1 sample_state = Some (r, s') \<and>
      suspends_resumes (new_calls sample_state s') =
        [Arch_suspend_cpu 1, Arch_suspend_cpu 2, Arch_resume_cpu 1]"
  proof -
    from cell_set_loadable_after_prologue[OF sample_prologue[of CELL_SET_LOADABLE]]
    obtain r s' where
      run: "cell_set_loadable sample_consts sample_env 0 1 sample_state = Some (r, s')"
      by auto
    from lifecycle_suspends_and_resumes[OF a, of sample_consts 0 1 sample_state r s'] run b
    have "suspended_then_resumed sample_state s' 0 [2]"
      and c: "cpu_set (cells s' root_cell) = cpu_set (cells sample_state root_cell)"
      by (simp_all add: sample_target)
    then have "suspends_resumes (new_calls sample_state s') =
          [Arch_suspend_cpu 1, Arch_suspend_cpu 2, Arch_resume_cpu 1]"
      by (simp add: suspended_then_resumed_def other_cpus_def sample_target root_cell_def)
    with run show ?thesis by blast
  qed
  have destroy: "\<exists>s'. cell_destroy sample_consts sample_env 0 1 sample_state = Some (None, s') \<and>
      suspends_resumes (new_calls sample_state s') =
        [Arch_suspend_cpu 1, Arch_suspend_cpu 2, Arch_resume_cpu 1, Arch_resume_cpu 2]"
  proof -
    from cell_destroy_returns[OF sample_prologue[of CELL_DESTROY]]
    obtain s' where run: "cell_destroy sample_consts sample_env 0 1 sample_state = Some (None, s')"
      by auto
    have tc: "target_cell sample_consts sample_env CELL_DESTROY 0 1 sample_state = Some 1"
      by (simp add: target_cell_def sample_prologue)
    from lifecycle_suspends_and_resumes[OF a, of sample_consts 0 1 sample_state None s'] run b
    have "suspended_then_resumed sample_state s' 0 [2]"
      and c: "cpu_set (cells s' root_cell) = \<lparr>max_cpu_id = 3, bitmap = {0, 1, 2}\<rparr>"
      by (auto simp: sample_target tc root_cell_def)
    then have "suspends_resumes (new_calls sample_state s') =
          [Arch_suspend_cpu 1, Arch_suspend_cpu 2, Arch_resume_cpu 1, Arch_resume_cpu 2]"
      by (simp add: suspended_then_resumed_def other_cpus_def sample_target root_cell_def)
    with run show ?thesis by blast
  qed
  have create: "\<exists>s'. cell_create sample_consts sample_create_env 0 0 sample_state = Some (Inr 2, s') \<and>
      suspends_resumes (new_calls sample_state s') =
        Arch_suspend_cpu 1 # map Arch_resume_cpu (other_cpus s' root_cell 0) \<and>
      bitmap (cpu_set (cells s' root_cell)) \<subseteq> {0, 1}"
  proof -
    from sample_create obtain s' where
      run: "cell_create sample_consts sample_create_env 0 0 sample_state = Some (Inr 2, s')"
      by blast
    from lifecycle_suspends_and_resumes[OF a', of sample_consts 0 _ sample_state _ _ 0 "Inr 2" s']
      run b
    have sr: "suspended_then_resumed sample_state s' 0 []"
      and c: "bitmap (cpu_set (cells s' root_cell)) \<subseteq> bitmap (cpu_set (cells sample_state root_cell))"
      by simp_all
    from c have c': "bitmap (cpu_set (cells s' root_cell)) \<subseteq> {0, 1}"
      by (simp add: root_cell_def)
    from sr have "suspends_resumes (new_calls sample_state s') =
        Arch_suspend_cpu 1 # map Arch_resume_cpu (other_cpus s' root_cell 0)"
      by (simp add: suspended_then_resumed_def sample_target)
    with c' have "suspends_resumes (new_calls sample_state s') =
        Arch_suspend_cpu 1 # map Arch_resume_cpu (other_cpus s' root_cell 0) \<and>
      bitmap (cpu_set (cells s' root_cell)) \<subseteq> {0, 1}" by blast
    with run show ?thesis by blast
  qed
  from a a' b start loadable destroy create show ?thesis by blast
qed

text \<open>
  In the example, the start of cell 1 returns 0; CPU 2 of that cell was suspended, and
  \<open>arch_resume_cpu\<close> is never called on it: the CPU is reset.
\<close>

theorem cell_start_target_not_resumed_counterexample:
  "\<exists>s'. cell_start sample_consts sample_env 0 1 sample_state = Some (None, s') \<and>
      Arch_suspend_cpu 2 \<in> set (trace s') \<and> Arch_resume_cpu 2 \<notin> set (trace s')"
proof -
  from cell_start_after_prologue[OF sample_prologue[of CELL_START]]
  obtain s' new where run: "cell_start sample_consts sample_env 0 1 sample_state = Some (None, s')"
    and tr: "trace s' = trace (cell_suspend 1 0
       (jailhouse_send_msg_to_cell 1 1 (cell_suspend root_cell 0 sample_state))) @ new @
             map Arch_resume_cpu
               (for_each_cpu_except (cpu_set (cells sample_state root_cell)) (of_nat 0))"
    and q: "suspends_resumes new = []"
    by auto
  have "Arch_resume_cpu 2 \<notin> set new"
  proof
    assume "Arch_resume_cpu 2 \<in> set new"
    then have "Arch_resume_cpu 2 \<in> set (suspends_resumes new)"
      by (simp add: suspends_resumes_def)
    with q show False by simp
  qed
  then have "Arch_suspend_cpu 2 \<in> set (trace s') \<and> Arch_resume_cpu 2 \<notin> set (trace s')"
    by (simp add: tr cell_suspend_eq jailhouse_send_msg_to_cell_def root_cell_def)
  with run show ?thesis by blast
qed

section \<open>The id of a new cell\<close>

lemma sample_cell_ids: "cell_ids sample_state = [0, 1]"
  by (simp add: cell_ids_def for_each_cell_def root_cell_def)

text \<open>
  C6. When the list holds fewer than \<open>2^32 - 1\<close> cells besides the root cell,
  \<open>get_free_cell_id\<close> returns, and its result is the smallest id that no cell of the
  list has. \<open>cell_init\<close> stores this id in the cell. A \<open>cell_create\<close> that succeeds,
  with an allocator that returns no page of a listed cell, returns this id and puts the new
  cell, with this id, at the end of the list; the ids of the cells before it are as they
  were, so that ids that were pairwise distinct remain so.
\<close>

theorem get_free_cell_id_smallest:
  assumes "length (cell_list s) < 2 ^ 32 - 1"
  shows "\<exists>i. get_free_cell_id s = Some i \<and> i \<notin> set (cell_ids s) \<and>
           (\<forall>j < i. j \<in> set (cell_ids s)) \<and>
           (\<forall>K E c r s1. cell_init K E c s = Some (r, s1) \<longrightarrow> cell_id (cells s1 c) = i) \<and>
           (\<forall>K E cpu_data config_address j s'.
              cell_create K E cpu_data config_address s = Some (Inr j, s') \<and>
              (\<forall>t n c. page_alloc_result E t n = Some c \<longrightarrow> c \<notin> set (for_each_cell s)) \<longrightarrow>
              j = i \<and>
              (\<exists>c. c \<notin> set (for_each_cell s) \<and> cell_list s' = cell_list s @ [c] \<and>
                   cell_id (cells s' c) = i) \<and>
              cell_ids s' = cell_ids s @ [i] \<and>
              (distinct (cell_ids s) \<longrightarrow> distinct (cell_ids s')))"
proof -
  from get_free_cell_id_least[OF assms] obtain i where
    free: "get_free_cell_id s = Some i" and nin: "i \<notin> set (cell_ids s)"
    and least: "\<forall>j < i. j \<in> set (cell_ids s)"
    by (auto simp: id_in_use_cell_ids)
  have init: "cell_id (cells s1 c) = i" if "cell_init K E c s = Some (r, s1)" for K E c r s1
    using cell_init_result[OF that] free by simp
  have create: "j = i \<and>
              (\<exists>c. c \<notin> set (for_each_cell s) \<and> cell_list s' = cell_list s @ [c] \<and>
                   cell_id (cells s' c) = i) \<and>
              cell_ids s' = cell_ids s @ [i] \<and>
              (distinct (cell_ids s) \<longrightarrow> distinct (cell_ids s'))"
    if "cell_create K E cpu_data config_address s = Some (Inr j, s')"
      and "\<forall>t n c. page_alloc_result E t n = Some c \<longrightarrow> c \<notin> set (for_each_cell s)"
    for K E cpu_data config_address j s'
  proof -
    from cell_create_new_id[OF that] free have j: "j = i" by simp
    with cell_create_new_id[OF that] nin show ?thesis by auto
  qed
  show ?thesis
    apply (rule exI[of _ i])
    using free nin least init create by blast
qed

theorem get_free_cell_id_smallest_witness:
  "length (cell_list sample_state) < 2 ^ 32 - 1 \<and> cell_ids sample_state = [0, 1] \<and>
   get_free_cell_id sample_state = Some 2 \<and>
   (\<exists>s1. cell_init sample_consts sample_env 2 sample_state = Some (None, s1) \<and>
      cell_id (cells s1 2) = 2) \<and>
   (\<forall>t n. page_alloc_result sample_create_env t n = Some 2) \<and>
   2 \<notin> set (for_each_cell sample_state) \<and>
   (\<exists>s'. cell_create sample_consts sample_create_env 0 0 sample_state = Some (Inr 2, s') \<and>
      cell_ids s' = [0, 1, 2] \<and> distinct (cell_ids s'))"
proof -
  have a: "length (cell_list sample_state) < 2 ^ 32 - 1" by simp
  from get_free_cell_id_smallest[OF a] obtain i where
    free: "get_free_cell_id sample_state = Some i" and nin: "i \<notin> set (cell_ids sample_state)"
    and least: "\<forall>j < i. j \<in> set (cell_ids sample_state)"
    and init: "\<forall>K E c r s1. cell_init K E c sample_state = Some (r, s1) \<longrightarrow>
                 cell_id (cells s1 c) = i"
    and create: "\<forall>K E cpu_data config_address j s'.
              cell_create K E cpu_data config_address sample_state = Some (Inr j, s') \<and>
              (\<forall>t n c. page_alloc_result E t n = Some c \<longrightarrow>
                 c \<notin> set (for_each_cell sample_state)) \<longrightarrow>
              j = i \<and>
              (\<exists>c. c \<notin> set (for_each_cell sample_state) \<and>
                   cell_list s' = cell_list sample_state @ [c] \<and> cell_id (cells s' c) = i) \<and>
              cell_ids s' = cell_ids sample_state @ [i] \<and>
              (distinct (cell_ids sample_state) \<longrightarrow> distinct (cell_ids s'))"
    by blast
  have "i \<noteq> 0" "i \<noteq> 1" using nin by (simp_all add: sample_cell_ids)
  then have "unat i \<noteq> 0" "unat i \<noteq> 1"
    by (simp_all add: word_unat_eq_iff)
  moreover have "\<not> 2 < i" using least by (auto simp: sample_cell_ids)
  then have "\<not> 2 < unat i" by (simp add: word_less_nat_alt)
  ultimately have "unat i = 2" by arith
  then have i: "i = 2" by (simp add: word_unat_eq_iff)
  from sample_cell_init obtain s1 where
    ci: "cell_init sample_consts sample_env 2 sample_state = Some (None, s1)" by blast
  with init i have i1: "cell_id (cells s1 2) = 2" by blast
  from sample_create obtain s' where
    run: "cell_create sample_consts sample_create_env 0 0 sample_state = Some (Inr 2, s')"
    by blast
  from create run sample_create_fresh
  have "cell_ids s' = cell_ids sample_state @ [i]"
    "distinct (cell_ids sample_state) \<longrightarrow> distinct (cell_ids s')"
    by blast+
  then have "cell_ids s' = [0, 1, 2]" "distinct (cell_ids s')"
    by (simp_all add: sample_cell_ids i)
  moreover have "2 \<notin> set (for_each_cell sample_state)"
    by (simp add: for_each_cell_def root_cell_def)
  ultimately show ?thesis
    using a free i ci i1 run by (auto simp: sample_cell_ids)
qed

end
